theory Spec2Isabelle
  imports Complex_Main "HOL-Library.Word" "HOL-Library.Sublist"
begin

section \<open>The command queue (package graphics)\<close>

text \<open>
  Go pointers to images are compared by identity only, so an image pointer is its
  address. \<open>opengl.CompositeMode\<close> and \<open>Filter\<close> are integer enumerations declared
  outside the sources at hand and are compared with \<open>==\<close> only.
  The colour matrix \<open>affine.ColorM\<close> is a type parameter \<open>'c\<close>, the vertex float type
  \<open>float32\<close> a type parameter \<open>'f\<close>: the queue stores and copies such values and
  never computes with them.
\<close>

type_synonym image_ptr = nat
type_synonym compositeMode = nat
type_synonym filter = nat

text \<open>
  The five implementations of the interface \<open>command\<close>. The counts \<open>nvertices\<close> and
  \<open>nindices\<close> are Go \<open>int\<close>s that are only ever set from \<open>len(...)\<close> and
  increased by \<open>len(...)\<close>, hence natural numbers.
\<close>

datatype 'c command =
    DrawImageCommand image_ptr image_ptr nat nat 'c compositeMode filter
  | ReplacePixelsCommand image_ptr "8 word list" int int int int
  | DisposeCommand image_ptr
  | NewImageCommand image_ptr int int
  | NewScreenFramebufferImageCommand image_ptr int int

fun NumVertices :: "'c command \<Rightarrow> nat" where
  "NumVertices (DrawImageCommand dst src nv ni clr m f) = nv"
| "NumVertices (ReplacePixelsCommand dst p x y w h) = 0"
| "NumVertices (DisposeCommand t) = 0"
| "NumVertices (NewImageCommand r w h) = 0"
| "NumVertices (NewScreenFramebufferImageCommand r w h) = 0"

fun NumIndices :: "'c command \<Rightarrow> nat" where
  "NumIndices (DrawImageCommand dst src nv ni clr m f) = ni"
| "NumIndices (ReplacePixelsCommand dst p x y w h) = 0"
| "NumIndices (DisposeCommand t) = 0"
| "NumIndices (NewImageCommand r w h) = 0"
| "NumIndices (NewScreenFramebufferImageCommand r w h) = 0"

fun AddNumVertices :: "'c command \<Rightarrow> nat \<Rightarrow> 'c command" where
  "AddNumVertices (DrawImageCommand dst src nv ni clr m f) n =
     DrawImageCommand dst src (nv + n) ni clr m f"
| "AddNumVertices c n = c"

fun AddNumIndices :: "'c command \<Rightarrow> nat \<Rightarrow> 'c command" where
  "AddNumIndices (DrawImageCommand dst src nv ni clr m f) n =
     DrawImageCommand dst src nv (ni + n) clr m f"
| "AddNumIndices c n = c"

text \<open>
  Modelled from the spec: \<open>affine.ColorM\<close> and its method \<open>Equals\<close> are missing from
  the sources; the spec asks of the colour transform "an equality test usable for merge
  decisions" ("value-equal"), so \<open>c.color.Equals(color)\<close> is equality of the values.
\<close>

definition ColorM_Equals :: "'c \<Rightarrow> 'c \<Rightarrow> bool" where
  "ColorM_Equals a b = (a = b)"

fun CanMerge ::
  "'c command \<Rightarrow> image_ptr \<Rightarrow> image_ptr \<Rightarrow> 'c \<Rightarrow> compositeMode \<Rightarrow> filter \<Rightarrow> bool" where
  "CanMerge (DrawImageCommand cdst csrc nv ni ccolor cmode cfilter) dst src clr mode flt =
     (if cdst \<noteq> dst then False
      else if csrc \<noteq> src then False
      else if \<not> ColorM_Equals ccolor clr then False
      else if cmode \<noteq> mode then False
      else if cfilter \<noteq> flt then False
      else True)"
| "CanMerge c dst src clr mode flt = False"

text \<open>
  Every way the queue's code stops without a result: the three \<open>panic\<close> calls of the
  source, an out-of-range slice expression (a run-time panic of Go), and an error
  returned by a command's \<open>Exec\<close>.
\<close>

datatype error =
    PanicTooManyIndices
  | PanicNotReachedEnqueue
  | PanicNotReachedFlush
  | PanicSliceBounds
  | ExecError

record ('c, 'f) commandQueue =
  commands :: "'c command list"
  vertices :: "'f list"
  indices :: "16 word list"
  nindices :: nat
  tmpNumIndices :: nat
  nextIndex :: nat

definition theCommandQueue :: "('c, 'f) commandQueue" where
  "theCommandQueue =
     \<lparr>commands = [], vertices = [], indices = [], nindices = 0, tmpNumIndices = 0,
      nextIndex = 0\<rparr>"

definition appendVertices :: "('c, 'f) commandQueue \<Rightarrow> 'f list \<Rightarrow> ('c, 'f) commandQueue" where
  "appendVertices q vs = q\<lparr>vertices := vertices q @ vs\<rparr>"

text \<open>
  \<open>appendIndices\<close> grows \<open>q.indices\<close> with zeros when it is too short, then writes the
  new indices, each shifted by \<open>offset\<close> in \<open>uint16\<close> arithmetic, from position
  \<open>q.nindices\<close> on.
\<close>

definition appendIndices ::
  "('c, 'f) commandQueue \<Rightarrow> 16 word list \<Rightarrow> 16 word \<Rightarrow> ('c, 'f) commandQueue" where
  "appendIndices q idx offset =
     (let es = (if length (indices q) < nindices q + length idx
                then indices q @ replicate (nindices q + length idx - length (indices q)) 0
                else indices q);
          es' = foldl (\<lambda>a i. a[nindices q + i := idx ! i + offset]) es [0..<length idx]
      in q\<lparr>indices := es', nindices := nindices q + length idx\<rparr>)"

definition doEnqueueDrawImageCommand ::
  "nat \<Rightarrow> ('c, 'f) commandQueue \<Rightarrow> image_ptr \<Rightarrow> image_ptr \<Rightarrow> nat \<Rightarrow> nat \<Rightarrow> 'c \<Rightarrow>
   compositeMode \<Rightarrow> filter \<Rightarrow> bool \<Rightarrow> error + ('c, 'f) commandQueue" where
  "doEnqueueDrawImageCommand indicesNum q dst src nv ni clr mode flt forceNewCommand =
     (if ni > indicesNum then Inl PanicTooManyIndices
      else if \<not> forceNewCommand \<and> 0 < length (commands q) \<and>
              CanMerge (last (commands q)) dst src clr mode flt
      then Inr (q\<lparr>commands :=
                  butlast (commands q) @
                  [AddNumIndices (AddNumVertices (last (commands q)) nv) ni]\<rparr>)
      else Inr (q\<lparr>commands := commands q @ [DrawImageCommand dst src nv ni clr mode flt]\<rparr>))"

text \<open>
  Modelled from the spec: \<open>theArrayBufferLayout\<close>, from which \<open>VertexSizeInFloats\<close>
  reads the size of a vertex, is missing from the sources; the spec's vertex is a
  position, two sets of texture coordinates and the tint channels, which
  \<open>Image.vertices\<close> lays out as 2 + 4 + 4 = 10 floats.
\<close>

definition VertexSizeInFloats :: nat where
  "VertexSizeInFloats = 10"

text \<open>
  The loop "populate color naively" of \<open>EnqueueDrawImageCommand\<close>: for each vertex
  starting at \<open>i\<close>, the floats 6 up to the end of the vertex are set to 1.0 (the
  parameter \<open>one\<close>). The slice expression \<open>vertices[i : i+vertexFloats]\<close> is checked
  by Go against the capacity of \<open>vertices\<close>; lists have no capacity, so the model
  checks it against the length, and an input whose length is not a whole number of
  vertices stops with \<open>PanicSliceBounds\<close>. The source overwrites the caller's slice in
  place; the model returns the overwritten vertices, which are what the queue stores.
\<close>

definition set_tint :: "'f \<Rightarrow> nat \<Rightarrow> 'f list \<Rightarrow> 'f list" where
  "set_tint one i vs = foldl (\<lambda>a j. a[i + j := one]) vs [6..<VertexSizeInFloats]"

function populate_color :: "'f \<Rightarrow> nat \<Rightarrow> 'f list \<Rightarrow> error + 'f list" where
  "populate_color one i vs =
     (if i < length vs
      then (if length vs < i + VertexSizeInFloats then Inl PanicSliceBounds
            else populate_color one (i + VertexSizeInFloats) (set_tint one i vs))
      else Inr vs)"
  by pat_completeness auto

lemma length_foldl_update:
  "length (foldl (\<lambda>a j. a[g j := h j]) vs js) = length vs"
  by (induction js arbitrary: vs) simp_all

lemma length_set_tint: "length (set_tint one i vs) = length vs"
  unfolding set_tint_def by (rule length_foldl_update)

termination populate_color
  by (relation "measure (\<lambda>(one, i, vs). length vs - i)")
     (simp_all add: length_set_tint VertexSizeInFloats_def)

declare populate_color.simps [simp del]

definition EnqueueDrawImageCommand ::
  "nat \<Rightarrow> 'f \<Rightarrow> ('c, 'f) commandQueue \<Rightarrow> image_ptr \<Rightarrow> image_ptr \<Rightarrow> 'f list \<Rightarrow> 16 word list \<Rightarrow>
   'c \<Rightarrow> compositeMode \<Rightarrow> filter \<Rightarrow> error + ('c, 'f) commandQueue" where
  "EnqueueDrawImageCommand indicesNum one q dst src vs idx clr mode flt =
     (if length idx > indicesNum then Inl PanicNotReachedEnqueue
      else case populate_color one 0 vs of
        Inl e \<Rightarrow> Inl e
      | Inr vs' \<Rightarrow>
          (let split = (tmpNumIndices q + length idx > indicesNum);
               q1 = (if split then q\<lparr>tmpNumIndices := 0, nextIndex := 0\<rparr> else q);
               q2 = appendVertices q1 vs';
               q3 = appendIndices q2 idx (of_nat (nextIndex q2));
               q4 = q3\<lparr>nextIndex := nextIndex q3 + length vs' div VertexSizeInFloats\<rparr>;
               q5 = q4\<lparr>tmpNumIndices := tmpNumIndices q4 + length idx\<rparr>
           in doEnqueueDrawImageCommand indicesNum q5 dst src (length vs') (length idx)
                clr mode flt split))"

definition Enqueue :: "('c, 'f) commandQueue \<Rightarrow> 'c command \<Rightarrow> ('c, 'f) commandQueue" where
  "Enqueue q c = q\<lparr>commands := commands q @ [c]\<rparr>"


subsection \<open>Flush\<close>

text \<open>
  What \<open>Flush\<close> hands to the GL context for one chunk: the slice \<open>es[:ne]\<close> given to
  \<open>ElementArrayBufferSubData\<close>, the slice \<open>vs[:nv]\<close> given to \<open>ArrayBufferSubData\<close>
  (both empty when \<open>ne = 0\<close> and nothing is uploaded), and the commands executed, each
  with the \<open>indexOffsetInBytes\<close> passed to its \<open>Exec\<close>.
\<close>

record ('c, 'f) chunk =
  chunk_indices :: "16 word list"
  chunk_vertices :: "'f list"
  chunk_execs :: "('c command \<times> nat) list"

text \<open>
  The inner \<open>for _, c := range q.commands\<close> loop, with its three counters.
\<close>

fun flush_scan ::
  "nat \<Rightarrow> 'c command list \<Rightarrow> nat \<Rightarrow> nat \<Rightarrow> nat \<Rightarrow> error + (nat \<times> nat \<times> nat)" where
  "flush_scan indicesNum [] nv ne nc = Inr (nv, ne, nc)"
| "flush_scan indicesNum (c # cs) nv ne nc =
     (if NumIndices c > indicesNum then Inl PanicNotReachedFlush
      else if ne + NumIndices c > indicesNum then Inr (nv, ne, nc)
      else flush_scan indicesNum cs (nv + NumVertices c) (ne + NumIndices c) (nc + 1))"

text \<open>
  The loop over \<open>q.commands[:nc]\<close>. Whether an \<open>Exec\<close> stops the flush, by returning
  an error or by a panic, is decided by the GL context (creating a framebuffer or a
  texture) and by code outside the sources: the parameter \<open>fails\<close> tells, for a command
  and its index offset, whether its \<open>Exec\<close> does anything but return \<open>nil\<close>.
\<close>

fun flush_exec ::
  "('c command \<Rightarrow> nat \<Rightarrow> bool) \<Rightarrow> 'c command list \<Rightarrow> nat \<Rightarrow>
   error + ('c command \<times> nat) list" where
  "flush_exec fails [] indexOffsetInBytes = Inr []"
| "flush_exec fails (c # cs) indexOffsetInBytes =
     (if fails c indexOffsetInBytes then Inl ExecError
      else
        (case flush_exec fails cs (indexOffsetInBytes + NumIndices c * 2) of
           Inl err \<Rightarrow> Inl err
         | Inr xs \<Rightarrow> Inr ((c, indexOffsetInBytes) # xs)))"

lemma flush_scan_count:
  "flush_scan indicesNum cs nv ne nc = Inr (nv', ne', nc') \<Longrightarrow>
   nc \<le> nc' \<and> nc' \<le> nc + length cs"
proof (induction indicesNum cs nv ne nc rule: flush_scan.induct)
  case (1 indicesNum nv ne nc)
  then show ?case by simp
next
  case (2 indicesNum c cs nv ne nc)
  then show ?case by (simp split: if_splits)
qed

lemma flush_scan_progress:
  "flush_scan indicesNum (c # cs) 0 0 0 = Inr (nv', ne', nc') \<Longrightarrow> 0 < nc'"
  using flush_scan_count [of indicesNum cs "NumVertices c" "NumIndices c" 1 nv' ne' nc']
  by (auto split: if_splits)

text \<open>
  The outer loop \<open>for len(q.commands) > 0\<close>. \<open>es\<close> and \<open>vs\<close> are the parts of the index
  and vertex arrays not yet uploaded. As in \<open>populate_color\<close>, the slice expressions
  \<open>es[:ne]\<close> and \<open>vs[:nv]\<close> are checked against the length.
\<close>

function flush_loop ::
  "nat \<Rightarrow> ('c command \<Rightarrow> nat \<Rightarrow> bool) \<Rightarrow> 'c command list \<Rightarrow> 16 word list \<Rightarrow> 'f list \<Rightarrow>
   error + ('c, 'f) chunk list" where
  "flush_loop indicesNum fails cmds es vs =
     (if cmds = [] then Inr []
      else case flush_scan indicesNum cmds 0 0 0 of
        Inl err \<Rightarrow> Inl err
      | Inr (nv, ne, nc) \<Rightarrow>
          if 0 < ne \<and> (length es < ne \<or> length vs < nv) then Inl PanicSliceBounds
          else
            (case flush_exec fails (take nc cmds) 0 of
               Inl err \<Rightarrow> Inl err
             | Inr xs \<Rightarrow>
                 (case flush_loop indicesNum fails (drop nc cmds)
                         (if 0 < ne then drop ne es else es)
                         (if 0 < ne then drop nv vs else vs) of
                    Inl err \<Rightarrow> Inl err
                  | Inr chunks \<Rightarrow>
                      Inr (\<lparr>chunk_indices = (if 0 < ne then take ne es else []),
                            chunk_vertices = (if 0 < ne then take nv vs else []),
                            chunk_execs = xs\<rparr> # chunks))))"
  by pat_completeness auto

termination flush_loop
proof (relation "measure (\<lambda>(n, fails, cmds, es, vs). length cmds)", goal_cases)
  case 1
  show ?case by simp
next
  case (2 indicesNum fails cmds es vs x2 nv y ne nc)
  then obtain c cs where "cmds = c # cs"
    by (cases cmds) auto
  with 2 have "0 < nc"
    using flush_scan_progress [of indicesNum c cs nv ne nc] by simp
  with \<open>cmds \<noteq> []\<close> show ?case by simp
qed

declare flush_loop.simps [simp del]

text \<open>
  \<open>Flush\<close> returns the chunks handed to the GL context together with the emptied
  queue, or the error or panic that stopped it.
\<close>

definition Flush ::
  "nat \<Rightarrow> ('c command \<Rightarrow> nat \<Rightarrow> bool) \<Rightarrow> ('c, 'f) commandQueue \<Rightarrow>
   error + (('c, 'f) chunk list \<times> ('c, 'f) commandQueue)" where
  "Flush indicesNum fails q =
     (case flush_loop indicesNum fails (commands q) (indices q) (vertices q) of
        Inl err \<Rightarrow> Inl err
      | Inr chunks \<Rightarrow>
          Inr (chunks,
               q\<lparr>commands := [], vertices := [], nindices := 0, tmpNumIndices := 0,
                 nextIndex := 0\<rparr>))"

subsection \<open>Vocabulary for the claims about the queue\<close>

definition total_indices :: "'c command list \<Rightarrow> nat" where
  "total_indices cs = sum_list (map NumIndices cs)"

definition total_vertices :: "'c command list \<Rightarrow> nat" where
  "total_vertices cs = sum_list (map NumVertices cs)"

definition chunk_commands :: "('c, 'f) chunk \<Rightarrow> 'c command list" where
  "chunk_commands ch = map fst (chunk_execs ch)"

text \<open>
  A list of chunks is a longest-prefix partition for the limit \<open>n\<close> when each chunk is
  non-empty, its index count fits in \<open>n\<close>, and no longer prefix of the commands that
  were still queued when the chunk was taken (this chunk and all later ones) fits.
\<close>

fun longest_prefix_chunks :: "nat \<Rightarrow> 'c command list list \<Rightarrow> bool" where
  "longest_prefix_chunks n [] = True"
| "longest_prefix_chunks n (cs # css) =
     (cs \<noteq> [] \<and> total_indices cs \<le> n \<and>
      (\<forall>k \<in> {0..length (concat (cs # css))}.
         total_indices (take k (concat (cs # css))) \<le> n \<longrightarrow> k \<le> length cs) \<and>
      longest_prefix_chunks n css)"

text \<open>
  Drawing several times in immediate succession with the same target, source, colour
  transform, blend mode and filter: one call of \<open>EnqueueDrawImageCommand\<close> per pair of
  vertices and indices, stopping at the first panic.
\<close>

fun draw_repeatedly ::
  "nat \<Rightarrow> 'f \<Rightarrow> ('c, 'f) commandQueue \<Rightarrow> image_ptr \<Rightarrow> image_ptr \<Rightarrow>
   ('f list \<times> 16 word list) list \<Rightarrow> 'c \<Rightarrow> compositeMode \<Rightarrow> filter \<Rightarrow>
   error + ('c, 'f) commandQueue" where
  "draw_repeatedly indicesNum one q dst src [] clr mode flt = Inr q"
| "draw_repeatedly indicesNum one q dst src (d # ds) clr mode flt =
     (case EnqueueDrawImageCommand indicesNum one q dst src (fst d) (snd d) clr mode flt of
        Inl err \<Rightarrow> Inl err
      | Inr q' \<Rightarrow> draw_repeatedly indicesNum one q' dst src ds clr mode flt)"

text \<open>
  The arrays of a queue cover its commands when they hold at least as many indices and
  vertex floats as the commands count; every queue built by \<open>EnqueueDrawImageCommand\<close>
  and \<open>Enqueue\<close> from the empty queue does.
\<close>

definition arrays_cover :: "('c, 'f) commandQueue \<Rightarrow> bool" where
  "arrays_cover q =
     (total_indices (commands q) \<le> length (indices q) \<and>
      total_vertices (commands q) \<le> length (vertices q))"

text \<open>
  The queues that the package can build: the empty queue, a queue after a draw has been
  enqueued without panic, a queue after a command other than a draw (one that counts no
  vertices and no indices) has been enqueued, and a queue after a flush that returned
  \<open>nil\<close>.
\<close>

inductive queue_built :: "nat \<Rightarrow> 'f \<Rightarrow> ('c, 'f) commandQueue \<Rightarrow> bool"
  for indicesNum :: nat and one :: 'f where
  empty: "queue_built indicesNum one theCommandQueue"
| draw: "queue_built indicesNum one q \<Longrightarrow>
         EnqueueDrawImageCommand indicesNum one q dst src vs idx clr mode flt = Inr q' \<Longrightarrow>
         queue_built indicesNum one q'"
| other: "queue_built indicesNum one q \<Longrightarrow> NumIndices c = 0 \<Longrightarrow> NumVertices c = 0 \<Longrightarrow>
          queue_built indicesNum one (Enqueue q c)"
| flush: "queue_built indicesNum one q \<Longrightarrow> Flush indicesNum fails q = Inr (chunks, q') \<Longrightarrow>
          queue_built indicesNum one q'"

text \<open>
  What holds of every queue that the package can build (lemma \<open>queue_built_invariant\<close>):
  no command exceeds the limit, the counters and arrays agree with the commands, and the
  last command counts no more indices than were enqueued since the last split.
\<close>

definition queue_invariant :: "nat \<Rightarrow> ('c, 'f) commandQueue \<Rightarrow> bool" where
  "queue_invariant n q =
     ((\<forall>c\<in>set (commands q). NumIndices c \<le> n) \<and>
      total_indices (commands q) = nindices q \<and>
      nindices q \<le> length (indices q) \<and>
      total_vertices (commands q) = length (vertices q) \<and>
      (commands q \<noteq> [] \<longrightarrow> NumIndices (last (commands q)) \<le> tmpNumIndices q) \<and>
      tmpNumIndices q \<le> n)"

section \<open>The vertex builder (package restorable, vertices.go)\<close>

text \<open>
  \<open>Image.vertices\<close> computes with \<open>float32\<close> values. The two operations it applies to
  them are parameters of the model, so that every statement below is about exactly the
  floating-point operations of the source, whatever their rounding: \<open>f32_of_int n\<close> is
  the conversion \<open>float32(n)\<close> of an integer (also of a \<open>uint8\<close>, and of the constant
  255), \<open>f32_div\<close> is the division of two \<open>float32\<close> values.
\<close>

record 'f float32_ops =
  f32_of_int :: "int \<Rightarrow> 'f"
  f32_div :: "'f \<Rightarrow> 'f \<Rightarrow> 'f"

text \<open>
  \<open>color.RGBA\<close>, and a pointer \<open>*color.RGBA\<close>: \<open>None\<close> is \<open>nil\<close>, otherwise the
  address (which \<open>canMerge\<close> compares) together with the value found there at the time
  of the call (which \<open>vertices\<close> reads).
\<close>

record rgba =
  R :: "8 word"
  G :: "8 word"
  B :: "8 word"
  A :: "8 word"

type_synonym tint_ptr = "(nat \<times> rgba) option"

text \<open>
  A Go \<open>int\<close> is taken to be 64 bits wide, as on amd64 and arm64: an integer operation
  whose mathematical result is \<open>x\<close> yields \<open>go_int x\<close>, the result wrapped around into
  the range from \<open>- 2 ^ 63\<close> up to \<open>2 ^ 63 - 1\<close>. (With a 32-bit \<open>int\<close> the same holds
  with 31 and 32 in place of 63 and 64.)
\<close>

definition go_int :: "int \<Rightarrow> int" where
  "go_int x = (x + 2 ^ 63) mod 2 ^ 64 - 2 ^ 63"

text \<open>
  The loops \<open>for w < width { w *= 2 }\<close> and \<open>for h < height { h *= 2 }\<close>, which start
  from 1. For a size above \<open>2 ^ 62\<close> the loop variable wraps around to \<open>- 2 ^ 63\<close> and
  then to 0, where it stays, and the loop never ends: the result is \<open>None\<close> then
  (lemma \<open>next_pow2_loop_never_returns\<close>).
\<close>

partial_function (option) next_pow2_loop :: "int \<Rightarrow> int \<Rightarrow> int option" where
  "next_pow2_loop w n = (if w < n then next_pow2_loop (go_int (w * 2)) n else Some w)"

text \<open>
  The values that the loop variable takes on its way from 1 when the loop does not
  stop: the powers of two up to \<open>2 ^ 62\<close>, then \<open>- 2 ^ 63\<close>, then 0.
\<close>

definition on_the_way :: "int \<Rightarrow> bool" where
  "on_the_way w \<longleftrightarrow> w = 0 \<or> w = - (2 ^ 63) \<or> (\<exists>k\<le>62. w = 2 ^ k)"

section \<open>Restorable images (package restorable)\<close>

subsection \<open>The collaborators outside the sources\<close>

text \<open>
  Modelled from the spec: the type \<open>graphics.Image\<close> is missing from the sources; for
  the spec an image has an identity (its GPU handle) and a \<open>width\<close> and \<open>height\<close> "fixed
  at creation; never resized", which is what \<open>Size()\<close> returns.
\<close>

record gimage =
  gid :: nat
  gwidth :: int
  gheight :: int

text \<open>
  The calls that the code makes to package graphics are recorded in a log, in order:
  each of them enqueues a command or flushes the queue, and none of them is in the
  sources. The source of a \<open>DrawImage\<close> call is a pointer that may be \<open>nil\<close>.
\<close>

datatype ('c, 'f) gcall =
    GNewImage gimage
  | GNewScreenFramebufferImage gimage
  | GReplacePixels gimage "8 word list" int int int int
  | GDrawImage gimage "gimage option" "'f list" 'c compositeMode filter
  | GPixels gimage
  | GDispose gimage

subsection \<open>Images and their history\<close>

text \<open>
  \<open>drawImageHistoryItem\<close> and \<open>Image\<close>. The field names carry a suffix where the Go
  name is taken in HOL or by the command queue (\<open>image\<close>, \<open>vertices\<close>, \<open>filter\<close>, ...).
  A pointer to a restorable image is its address. A \<open>nil\<close> slice is \<open>None\<close> for
  \<open>basePixels\<close>; \<open>drawImageHistory\<close> is only ever \<open>nil\<close> or non-empty, so \<open>nil\<close> is
  the empty list.
\<close>

type_synonym restorable_ptr = nat

record ('c, 'f) drawImageHistoryItem =
  image_h :: restorable_ptr
  vertices_h :: "'f list"
  colorm_h :: 'c
  tint_h :: tint_ptr
  mode_h :: compositeMode
  filter_h :: filter

record ('c, 'f) rimage =
  image_r :: "gimage option"
  basePixels :: "8 word list option"
  drawImageHistory :: "('c, 'f) drawImageHistoryItem list"
  stale :: bool
  volatile :: bool
  screen :: bool

text \<open>
  The registry type \<open>images\<close> (declared in package ebiten, \<open>theImagesForRestoring\<close>): the
  set of live restorable images and the memo \<open>lastChecked\<close>. Go iterates over the map in
  an unspecified order; the list gives the order of one iteration, whichever it is. The
  mutex is left out: the model is sequential.
\<close>

record images =
  images_m :: "restorable_ptr list"
  lastChecked :: "restorable_ptr option"

text \<open>
  The state of the program: the \<open>ebiten.Image\<close> objects (each is its one field
  \<open>restorable\<close>, \<open>None\<close> once disposed), the \<open>restorable.Image\<close> objects, the registry
  of package ebiten, the registry \<open>theImages\<close> of package restorable, the log of calls to
  package graphics and the next unused GPU handle.
\<close>

type_synonym ebiten_ptr = nat

record ('c, 'f) world =
  eimages :: "ebiten_ptr \<Rightarrow> restorable_ptr option"
  rimages :: "restorable_ptr \<Rightarrow> ('c, 'f) rimage"
  theImagesForRestoring :: images
  theImages :: images
  glog :: "('c, 'f) gcall list"
  gnext :: nat

text \<open>
  How the code of the two packages fails to give a result: its own panics, a nil
  pointer dereference or an index out of range (run-time panics of Go), the two
  errors that \<open>restore\<close> and \<open>At\<close> return, and a call that never returns because a
  loop in it does not end.
\<close>

datatype failure =
    NeverReturns
  | PanicNilDereference
  | PanicIndexOutOfRange
  | PanicRestoreNotReached
  | PanicDrawImageSelf
  | PanicReplacePixelsLength
  | PanicAtError
  | ErrorStaleWhenRestoring
  | ErrorPixels

text \<open>
  The options of a draw of package ebiten, as far as \<open>Image.DrawImage\<close> looks at
  them: the colour matrix, the blend mode, and the vertices that the function
  \<open>vertices(parts, w, h, geom)\<close>, which is missing from the sources, computes from the
  options' image parts and geometry matrix for a source of width \<open>w\<close> and height \<open>h\<close>.

  What else the sources use and do not contain: \<open>IsRestoringEnabled()\<close>; the pixels that
  \<open>graphics.Image.Pixels()\<close> reads back from the GPU (\<open>None\<close> when it returns an error),
  which depend on everything sent to package graphics before; \<open>NextPowerOf2Int\<close>; and
  the two methods of an older \<open>restorable.Image\<close> that package ebiten calls with
  vertices already computed, \<open>DrawImage(img, vertices, colorm, mode)\<close> and
  \<open>ReplacePixels(pixels)\<close>; and the zero value \<open>DrawImageOptions{}\<close>.
\<close>

record ('c, 'f) DrawImageOptions =
  ColorM :: 'c
  CompositeMode :: compositeMode
  vertices_of_parts :: "int \<Rightarrow> int \<Rightarrow> 'f list"

record ('c, 'f) outside =
  IsRestoringEnabled :: bool
  Pixels :: "('c, 'f) gcall list \<Rightarrow> gimage \<Rightarrow> 8 word list option"
  NextPowerOf2Int :: "int \<Rightarrow> int"
  zeroDrawImageOptions :: "('c, 'f) DrawImageOptions"
  restorable_DrawImage_vertices ::
    "restorable_ptr \<Rightarrow> restorable_ptr \<Rightarrow> 'f list \<Rightarrow> 'c \<Rightarrow> compositeMode \<Rightarrow>
     ('c, 'f) world \<Rightarrow> failure + ('c, 'f) world"
  restorable_ReplacePixels_all ::
    "restorable_ptr \<Rightarrow> 8 word list \<Rightarrow> ('c, 'f) world \<Rightarrow> failure + ('c, 'f) world"

subsection \<open>Methods of a restorable image\<close>

definition canMerge ::
  "('c, 'f) drawImageHistoryItem \<Rightarrow> restorable_ptr \<Rightarrow> 'c \<Rightarrow> tint_ptr \<Rightarrow> compositeMode \<Rightarrow>
   filter \<Rightarrow> bool" where
  "canMerge d img colorm tint mode flt =
     (if image_h d \<noteq> img then False
      else if \<not> ColorM_Equals (colorm_h d) colorm then False
      else if mode_h d \<noteq> mode then False
      else if map_option fst (tint_h d) \<noteq> map_option fst tint then False
      else if filter_h d \<noteq> flt then False
      else True)"

text \<open>\<open>Size\<close> reads through \<open>i.image\<close>, which is \<open>nil\<close> after \<open>Dispose\<close>.\<close>

definition Size :: "('c, 'f) rimage \<Rightarrow> failure + (int \<times> int)" where
  "Size i = (case image_r i of
               None \<Rightarrow> Inl PanicNilDereference
             | Some g \<Rightarrow> Inr (gwidth g, gheight g))"

definition makeStale :: "('c, 'f) rimage \<Rightarrow> ('c, 'f) rimage" where
  "makeStale i = i\<lparr>basePixels := None, drawImageHistory := [], stale := True\<rparr>"

definition dependsOn :: "('c, 'f) rimage \<Rightarrow> restorable_ptr \<Rightarrow> bool" where
  "dependsOn i target = list_ex (\<lambda>c. image_h c = target) (drawImageHistory i)"

definition makeStaleIfDependingOn :: "('c, 'f) rimage \<Rightarrow> restorable_ptr \<Rightarrow> ('c, 'f) rimage" where
  "makeStaleIfDependingOn i target =
     (if stale i then i
      else if dependsOn i target then makeStale i
      else i)"


definition appendDrawImageHistory ::
  "('c, 'f) rimage \<Rightarrow> restorable_ptr \<Rightarrow> 'f list \<Rightarrow> 'c \<Rightarrow> tint_ptr \<Rightarrow> compositeMode \<Rightarrow>
   filter \<Rightarrow> ('c, 'f) rimage" where
  "appendDrawImageHistory i img vs colorm tint mode flt =
     (if stale i \<or> volatile i \<or> screen i then i
      else if length (drawImageHistory i) > 0 \<and>
              canMerge (last (drawImageHistory i)) img colorm tint mode flt
      then i\<lparr>drawImageHistory :=
               butlast (drawImageHistory i) @
               [(last (drawImageHistory i))
                  \<lparr>vertices_h := vertices_h (last (drawImageHistory i)) @ vs\<rparr>]\<rparr>
      else if length (drawImageHistory i) + 1 > 100 then makeStale i
      else i\<lparr>drawImageHistory :=
               drawImageHistory i @
               [\<lparr>image_h = img, vertices_h = vs, colorm_h = colorm, tint_h = tint,
                 mode_h = mode, filter_h = flt\<rparr>]\<rparr>)"

subsection \<open>The vertex builder\<close>

text \<open>
  \<open>Image.vertices\<close> (vertices.go). The geometry matrix enters through \<open>geo x y\<close>, the
  pair \<open>geo.Apply32(float64(x), float64(y))\<close> (package affine is outside the sources, and
  the method is only applied to the integer-valued corners). The result \<open>None\<close> is
  \<open>nil\<close>. The slice \<open>vs\<close> comes from the ring buffer \<open>theVerticesBackend\<close>, which hands
  out a fresh window of one quad (four vertices of ten floats) of its backing array; all
  forty floats are assigned, so the returned slice holds exactly the values listed here.
  The subtractions \<open>sx1 - sx0\<close> and \<open>sy1 - sy0\<close> wrap around as Go's do, and the call
  does not return when one of the two loops over the size does not end.
\<close>

definition Image_vertices ::
  "'f float32_ops \<Rightarrow> ('c, 'f) rimage \<Rightarrow> int \<Rightarrow> int \<Rightarrow> int \<Rightarrow> int \<Rightarrow> tint_ptr \<Rightarrow>
   (int \<Rightarrow> int \<Rightarrow> 'f \<times> 'f) \<Rightarrow> failure + 'f list option" where
  "Image_vertices ops i sx0 sy0 sx1 sy1 tint geo =
     (if sx0 \<ge> sx1 \<or> sy0 \<ge> sy1 then Inr None
      else if sx1 \<le> 0 \<or> sy1 \<le> 0 then Inr None
      else
        (let x0 = 0; y0 = 0;
             x1 = go_int (sx1 - sx0); y1 = go_int (sy1 - sy0);
             t = (case tint of
                    None \<Rightarrow> \<lparr>R = 255, G = 255, B = 255, A = 255\<rparr>
                  | Some (addr, c) \<Rightarrow> c);
             r = f32_div ops (f32_of_int ops (uint (R t))) (f32_of_int ops 255);
             g = f32_div ops (f32_of_int ops (uint (G t))) (f32_of_int ops 255);
             b = f32_div ops (f32_of_int ops (uint (B t))) (f32_of_int ops 255);
             a = f32_div ops (f32_of_int ops (uint (A t))) (f32_of_int ops 255)
         in case Size i of
              Inl err \<Rightarrow> Inl err
            | Inr (width, height) \<Rightarrow>
                (case next_pow2_loop 1 width of
                   None \<Rightarrow> Inl NeverReturns
                 | Some w \<Rightarrow>
                     (case next_pow2_loop 1 height of
                        None \<Rightarrow> Inl NeverReturns
                      | Some h \<Rightarrow>
                          (let wf = f32_of_int ops w;
                               hf = f32_of_int ops h;
                               u0 = f32_div ops (f32_of_int ops sx0) wf;
                               v0 = f32_div ops (f32_of_int ops sy0) hf;
                               u1 = f32_div ops (f32_of_int ops sx1) wf;
                               v1 = f32_div ops (f32_of_int ops sy1) hf;
                               p0 = geo x0 y0; p1 = geo x1 y0; p2 = geo x0 y1; p3 = geo x1 y1
                           in Inr (Some [fst p0, snd p0, u0, v0, u1, v1, r, g, b, a,
                                         fst p1, snd p1, u1, v0, u0, v1, r, g, b, a,
                                         fst p2, snd p2, u0, v1, u1, v0, r, g, b, a,
                                         fst p3, snd p3, u1, v1, u0, v0, r, g, b, a]))))))"

text \<open>
  Vocabulary for the claims about the vertex builder: the vertices that a call built
  (none when it returned \<open>nil\<close>, panicked or did not return), the first and the second pair of
  texture coordinates of vertex \<open>k\<close> of a quad, and the four corners of a source
  rectangle in the order in which the vertices are emitted; corner \<open>3 - k\<close> is
  diagonally opposite to corner \<open>k\<close>.
\<close>

definition built :: "failure + 'f list option \<Rightarrow> 'f list" where
  "built r = (case r of Inr (Some vs) \<Rightarrow> vs | _ \<Rightarrow> [])"

definition vertex_uv :: "'f list \<Rightarrow> nat \<Rightarrow> 'f \<times> 'f" where
  "vertex_uv vs k = (vs ! (VertexSizeInFloats * k + 2), vs ! (VertexSizeInFloats * k + 3))"

definition vertex_uv2 :: "'f list \<Rightarrow> nat \<Rightarrow> 'f \<times> 'f" where
  "vertex_uv2 vs k = (vs ! (VertexSizeInFloats * k + 4), vs ! (VertexSizeInFloats * k + 5))"

definition corner :: "int \<Rightarrow> int \<Rightarrow> int \<Rightarrow> int \<Rightarrow> nat \<Rightarrow> int \<times> int" where
  "corner sx0 sy0 sx1 sy1 k =
     (if k = 0 then (sx0, sy0) else if k = 1 then (sx1, sy0)
      else if k = 2 then (sx0, sy1) else (sx1, sy1))"

subsection \<open>The registry\<close>

text \<open>
  \<open>images.resetPixelsIfDependingOn\<close>, on the registry, the restorable images and the
  field \<open>target.restorable\<close> of its argument.
\<close>

definition resetPixelsIfDependingOn ::
  "images \<Rightarrow> (restorable_ptr \<Rightarrow> ('c, 'f) rimage) \<Rightarrow> restorable_ptr option \<Rightarrow>
   images \<times> (restorable_ptr \<Rightarrow> ('c, 'f) rimage)" where
  "resetPixelsIfDependingOn i imgs target_restorable =
     (if lastChecked i = target_restorable then (i, imgs)
      else
        (let i' = i\<lparr>lastChecked := target_restorable\<rparr>
         in case target_restorable of
              None \<Rightarrow> (i', imgs)
            | Some t \<Rightarrow>
                (i', foldl (\<lambda>s img. s(img := makeStaleIfDependingOn (s img) t)) imgs
                       (images_m i))))"

text \<open>
  Modelled from the spec: the registry \<open>theImages\<close> of package restorable and its methods
  are missing from the sources. The spec's registry invalidates the dependents of a
  target ("for every live image, if its history contains a draw entry whose source is
  target, mark it stale", with the one-entry memo), which is what
  \<open>resetPixelsIfDependingOn\<close> does.
\<close>

definition theImages_makeStaleIfDependingOn ::
  "('c, 'f) world \<Rightarrow> restorable_ptr \<Rightarrow> ('c, 'f) world" where
  "theImages_makeStaleIfDependingOn w target =
     (let r = resetPixelsIfDependingOn (theImages w) (rimages w) (Some target)
      in w\<lparr>theImages := fst r, rimages := snd r\<rparr>)"

text \<open>
  Modelled from the spec: \<open>theImages.remove\<close> is missing from the sources; for the spec
  the registry's entries are "removed on dispose".
\<close>

definition theImages_remove :: "('c, 'f) world \<Rightarrow> restorable_ptr \<Rightarrow> ('c, 'f) world" where
  "theImages_remove w i =
     w\<lparr>theImages := (theImages w)\<lparr>images_m := removeAll i (images_m (theImages w))\<rparr>\<rparr>"

subsection \<open>Drawing, reading, restoring, disposing\<close>

text \<open>
  \<open>Image.DrawImage\<close> of package restorable. A method of package graphics called
  through a \<open>nil\<close> pointer is taken to panic.
\<close>

definition restorable_DrawImage ::
  "('c, 'f) outside \<Rightarrow> 'f float32_ops \<Rightarrow> ('c, 'f) world \<Rightarrow> restorable_ptr \<Rightarrow> restorable_ptr \<Rightarrow>
   int \<Rightarrow> int \<Rightarrow> int \<Rightarrow> int \<Rightarrow> (int \<Rightarrow> int \<Rightarrow> 'f \<times> 'f) \<Rightarrow> 'c \<Rightarrow> tint_ptr \<Rightarrow>
   compositeMode \<Rightarrow> filter \<Rightarrow> failure + ('c, 'f) world" where
  "restorable_DrawImage env ops w i img sx0 sy0 sx1 sy1 geom colorm tint mode flt =
     (case Image_vertices ops (rimages w img) sx0 sy0 sx1 sy1 tint geom of
        Inl err \<Rightarrow> Inl err
      | Inr None \<Rightarrow> Inr w
      | Inr (Some vs) \<Rightarrow>
          (let w1 = theImages_makeStaleIfDependingOn w i;
               me = (if stale (rimages w1 img) \<or> volatile (rimages w1 img) \<or>
                        screen (rimages w1 i) \<or> \<not> IsRestoringEnabled env
                     then makeStale (rimages w1 i)
                     else appendDrawImageHistory (rimages w1 i) img vs colorm tint mode flt);
               w2 = w1\<lparr>rimages := (rimages w1)(i := me)\<rparr>
           in case image_r (rimages w2 i) of
                None \<Rightarrow> Inl PanicNilDereference
              | Some g \<Rightarrow>
                  Inr (w2\<lparr>glog := glog w2 @
                              [GDrawImage g (image_r (rimages w2 img)) vs colorm mode flt]\<rparr>)))"

text \<open>
  \<open>readPixelsFromGPU\<close>, called with \<open>i.image\<close>. When \<open>Pixels\<close> returns an error the
  method returns it and the model keeps no state.
\<close>

definition readPixelsFromGPU ::
  "('c, 'f) outside \<Rightarrow> ('c, 'f) world \<Rightarrow> restorable_ptr \<Rightarrow> failure + ('c, 'f) world" where
  "readPixelsFromGPU env w i =
     (case image_r (rimages w i) of
        None \<Rightarrow> Inl PanicNilDereference
      | Some g \<Rightarrow>
          (case Pixels env (glog w) g of
             None \<Rightarrow> Inl ErrorPixels
           | Some p \<Rightarrow>
               Inr (w\<lparr>rimages := (rimages w)
                          (i := (rimages w i)\<lparr>basePixels := Some p, drawImageHistory := [],
                                  stale := False\<rparr>),
                       glog := glog w @ [GPixels g]\<rparr>)))"

definition restorable_At ::
  "('c, 'f) outside \<Rightarrow> ('c, 'f) world \<Rightarrow> restorable_ptr \<Rightarrow> int \<Rightarrow> int \<Rightarrow>
   failure + (rgba \<times> ('c, 'f) world)" where
  "restorable_At env w i x y =
     (case Size (rimages w i) of
        Inl err \<Rightarrow> Inl err
      | Inr (wd, h) \<Rightarrow>
          if x < 0 \<or> y < 0 \<or> wd \<le> x \<or> h \<le> y
          then Inr (\<lparr>R = 0, G = 0, B = 0, A = 0\<rparr>, w)
          else
            (case (if basePixels (rimages w i) = None \<or> drawImageHistory (rimages w i) \<noteq> [] \<or>
                      stale (rimages w i)
                   then readPixelsFromGPU env w i else Inr w) of
               Inl err \<Rightarrow> Inl err
             | Inr w' \<Rightarrow>
                 (let idx = nat (4 * x + 4 * y * wd)
                  in case basePixels (rimages w' i) of
                       None \<Rightarrow> Inl PanicIndexOutOfRange
                     | Some p \<Rightarrow>
                         if idx + 3 < length p
                         then Inr (\<lparr>R = p ! idx, G = p ! (idx + 1), B = p ! (idx + 2),
                                    A = p ! (idx + 3)\<rparr>, w')
                         else Inl PanicIndexOutOfRange)))"



definition restorable_Dispose ::
  "('c, 'f) world \<Rightarrow> restorable_ptr \<Rightarrow> failure + ('c, 'f) world" where
  "restorable_Dispose w i =
     (let w1 = theImages_makeStaleIfDependingOn w i
      in case image_r (rimages w1 i) of
           None \<Rightarrow> Inl PanicNilDereference
         | Some g \<Rightarrow>
             Inr (theImages_remove
                    (w1\<lparr>rimages := (rimages w1)
                           (i := (rimages w1 i)\<lparr>image_r := None, basePixels := None,
                                   drawImageHistory := [], stale := False\<rparr>),
                        glog := glog w1 @ [GDispose g]\<rparr>) i))"

section \<open>Images and their registry (package ebiten)\<close>

text \<open>
  Package ebiten calls four methods of \<open>restorable.Image\<close> under their exported names,
  \<open>MakeStaleIfDependingOn\<close>, \<open>HasDependency\<close>, \<open>Restore\<close> and \<open>At\<close> (the last two with
  the GL context as one more argument); they are the methods \<open>makeStaleIfDependingOn\<close>,
  \<open>hasDependency\<close>, \<open>restore\<close> and \<open>At\<close> of package restorable above.
\<close>

text \<open>
  \<open>images.resetPixelsIfDependingOn\<close> on the registry \<open>theImagesForRestoring\<close>, for the
  \<open>ebiten.Image\<close> at address \<open>target\<close>.
\<close>

definition images_resetPixelsIfDependingOn ::
  "('c, 'f) world \<Rightarrow> ebiten_ptr \<Rightarrow> ('c, 'f) world" where
  "images_resetPixelsIfDependingOn w target =
     (let r = resetPixelsIfDependingOn (theImagesForRestoring w) (rimages w) (eimages w target)
      in w\<lparr>theImagesForRestoring := fst r, rimages := snd r\<rparr>)"




subsection \<open>Methods of an image\<close>

text \<open>\<open>color.Color\<close>, as far as \<open>At\<close> returns it; \<open>color.Transparent\<close> is \<open>Alpha16{0}\<close>.\<close>

datatype color = RGBA rgba | Alpha16 "16 word"

definition Transparent :: color where
  "Transparent = Alpha16 0"

fun alpha :: "color \<Rightarrow> nat" where
  "alpha (RGBA c) = unat (A c)"
| "alpha (Alpha16 a) = unat a"

text \<open>\<open>Image.Size\<close>: \<open>i.restorable.Size()\<close>, through a pointer that is \<open>nil\<close> once disposed.\<close>

definition Image_Size :: "('c, 'f) world \<Rightarrow> ebiten_ptr \<Rightarrow> failure + (int \<times> int)" where
  "Image_Size w i =
     (case eimages w i of
        None \<Rightarrow> Inl PanicNilDereference
      | Some r \<Rightarrow> Size (rimages w r))"

text \<open>
  \<open>Image.DrawImage\<close>. \<open>options\<close> is \<open>None\<close> for \<open>nil\<close>. Both branches that choose the
  parts end in the call \<open>image.restorable.Size()\<close> of line 214.
\<close>

definition Image_DrawImage ::
  "('c, 'f) outside \<Rightarrow> ('c, 'f) world \<Rightarrow> ebiten_ptr \<Rightarrow> ebiten_ptr \<Rightarrow>
   ('c, 'f) DrawImageOptions option \<Rightarrow> failure + ('c, 'f) world" where
  "Image_DrawImage env w i img options =
     (case eimages w i of
        None \<Rightarrow> Inr w
      | Some r \<Rightarrow>
          (let w1 = images_resetPixelsIfDependingOn w i;
               opts = (case options of None \<Rightarrow> zeroDrawImageOptions env | Some opts \<Rightarrow> opts)
           in case Image_Size w1 img of
                Inl err \<Rightarrow> Inl err
              | Inr (wd, h) \<Rightarrow>
                  (let vs = vertices_of_parts opts wd h
                   in if length vs = 0 then Inr w1
                      else if i = img then Inl PanicDrawImageSelf
                      else
                        (case eimages w1 img of
                           None \<Rightarrow> Inl PanicNilDereference
                         | Some s \<Rightarrow>
                             restorable_DrawImage_vertices env r s vs (ColorM opts)
                               (CompositeMode opts) w1))))"

text \<open>
  \<open>Image.At\<close>: an error returned by the restorable image becomes a panic.
\<close>

definition Image_At ::
  "('c, 'f) outside \<Rightarrow> ('c, 'f) world \<Rightarrow> ebiten_ptr \<Rightarrow> int \<Rightarrow> int \<Rightarrow>
   failure + (color \<times> ('c, 'f) world)" where
  "Image_At env w i x y =
     (case eimages w i of
        None \<Rightarrow> Inr (Transparent, w)
      | Some r \<Rightarrow>
          (case restorable_At env w r x y of
             Inl err \<Rightarrow> Inl (if err = ErrorPixels then PanicAtError else err)
           | Inr (clr, w') \<Rightarrow> Inr (RGBA clr, w')))"

definition Image_Dispose :: "('c, 'f) world \<Rightarrow> ebiten_ptr \<Rightarrow> failure + ('c, 'f) world" where
  "Image_Dispose w i =
     (case eimages w i of
        None \<Rightarrow> Inr w
      | Some r \<Rightarrow>
          (let w1 = images_resetPixelsIfDependingOn w i
           in case restorable_Dispose w1 r of
                Inl err \<Rightarrow> Inl err
              | Inr w2 \<Rightarrow> Inr (w2\<lparr>eimages := (eimages w2)(i := None)\<rparr>)))"

text \<open>
  The loop of \<open>Image.ReplacePixels\<close> that copies the rows of \<open>p\<close> into \<open>pix\<close>:
  \<open>copy(pix[j*w2*4:], p[j*w*4:(j+1)*w*4])\<close> for \<open>j\<close> from \<open>j\<close> up to \<open>h\<close>. \<open>copy\<close> stops at
  the shorter of its two slices.
\<close>

function copy_rows ::
  "8 word list \<Rightarrow> 8 word list \<Rightarrow> int \<Rightarrow> int \<Rightarrow> int \<Rightarrow> int \<Rightarrow> failure + 8 word list" where
  "copy_rows pix p wd h w2 j =
     (if j < h
      then (if j * w2 * 4 < 0 \<or> int (length pix) < j * w2 * 4 \<or> j * wd * 4 < 0 \<or>
               (j + 1) * wd * 4 < j * wd * 4 \<or> int (length p) < (j + 1) * wd * 4
            then Inl PanicIndexOutOfRange
            else
              (let off = nat (j * w2 * 4);
                   row = take (nat ((j + 1) * wd * 4) - nat (j * wd * 4)) (drop (nat (j * wd * 4)) p);
                   n = min (length pix - off) (length row)
               in copy_rows (take off pix @ take n row @ drop (off + n) pix) p wd h w2 (j + 1)))
      else Inr pix)"
  by pat_completeness auto

termination copy_rows
proof (relation "measure (\<lambda>(pix, p, wd, h, w2, j). nat (h - j))", goal_cases)
  case 1
  show ?case by simp
next
  case (2 pix p wd h w2 j off row n)
  from \<open>j < h\<close> show ?case by simp
qed

declare copy_rows.simps [simp del]

definition Image_ReplacePixels ::
  "('c, 'f) outside \<Rightarrow> ('c, 'f) world \<Rightarrow> ebiten_ptr \<Rightarrow> 8 word list \<Rightarrow>
   failure + ('c, 'f) world" where
  "Image_ReplacePixels env w i p =
     (case eimages w i of
        None \<Rightarrow> Inr w
      | Some r \<Rightarrow>
          (let w1 = images_resetPixelsIfDependingOn w i
           in case Size (rimages w1 r) of
                Inl err \<Rightarrow> Inl err
              | Inr (wd, h) \<Rightarrow>
                  if int (length p) \<noteq> 4 * wd * h then Inl PanicReplacePixelsLength
                  else
                    (let w2 = NextPowerOf2Int env wd;
                         h2 = NextPowerOf2Int env h
                     in if 4 * w2 * h2 < 0 then Inl PanicIndexOutOfRange
                        else
                          (case copy_rows (replicate (nat (4 * w2 * h2)) 0) p wd h w2 0 of
                             Inl err \<Rightarrow> Inl err
                           | Inr pix \<Rightarrow> restorable_ReplacePixels_all env r pix w1))))"

subsection \<open>Vocabulary for the claims about disposed images\<close>

text \<open>
  The operations that the claim about disposed images names, and a sequence of them
  applied to the image at address \<open>i\<close>, stopping at the first panic.
\<close>

datatype ('c, 'f) image_operation =
    Dispose_operation
  | DrawImage_operation ebiten_ptr "('c, 'f) DrawImageOptions option"
  | ReplacePixels_operation "8 word list"
  | At_operation int int

fun apply_operation ::
  "('c, 'f) outside \<Rightarrow> ('c, 'f) world \<Rightarrow> ebiten_ptr \<Rightarrow> ('c, 'f) image_operation \<Rightarrow>
   failure + ('c, 'f) world" where
  "apply_operation env w i Dispose_operation = Image_Dispose w i"
| "apply_operation env w i (DrawImage_operation img options) = Image_DrawImage env w i img options"
| "apply_operation env w i (ReplacePixels_operation p) = Image_ReplacePixels env w i p"
| "apply_operation env w i (At_operation x y) = map_sum id snd (Image_At env w i x y)"

fun apply_operations ::
  "('c, 'f) outside \<Rightarrow> ('c, 'f) world \<Rightarrow> ebiten_ptr \<Rightarrow> ('c, 'f) image_operation list \<Rightarrow>
   failure + ('c, 'f) world" where
  "apply_operations env w i [] = Inr w"
| "apply_operations env w i (operation # operations) =
     (case apply_operation env w i operation of
        Inl err \<Rightarrow> Inl err
      | Inr w' \<Rightarrow> apply_operations env w' i operations)"

definition released :: "('c, 'f) world \<Rightarrow> gimage list" where
  "released w = concat (map (\<lambda>c. case c of GDispose g \<Rightarrow> [g] | _ \<Rightarrow> []) (glog w))"

section \<open>Example inputs\<close>

text \<open>
  Concrete inputs on which the theorems below are instantiated. Floats are real
  numbers here, with exact conversion and division, and the colour matrix is a number.
\<close>

definition exact_ops :: "real float32_ops" where
  "exact_ops = \<lparr>f32_of_int = real_of_int, f32_div = (/)\<rparr>"

definition plain_geo :: "int \<Rightarrow> int \<Rightarrow> real \<times> real" where
  "plain_geo x y = (real_of_int x, real_of_int y)"

definition quad_indices :: "16 word list" where
  "quad_indices = [0, 1, 2, 1, 2, 3]"

text \<open>
  Three restorable images: image 11 (16 by 16) was drawn from image 12, image 12 (26 by
  104) has pixels and no history, image 13 is volatile. The \<open>ebiten.Image\<close> objects 1,
  2 and 3 wrap them; every other address is a disposed image.
\<close>

definition example_image_11 :: "(nat, real) rimage" where
  "example_image_11 =
     \<lparr>image_r = Some \<lparr>gid = 1, gwidth = 16, gheight = 16\<rparr>, basePixels = None,
      drawImageHistory =
        [\<lparr>image_h = 12, vertices_h = replicate 40 0, colorm_h = 0, tint_h = None,
          mode_h = 0, filter_h = 0\<rparr>],
      stale = False, volatile = False, screen = False\<rparr>"

definition example_image_12 :: "(nat, real) rimage" where
  "example_image_12 =
     \<lparr>image_r = Some \<lparr>gid = 2, gwidth = 26, gheight = 104\<rparr>,
      basePixels = Some (replicate 10816 0), drawImageHistory = [],
      stale = False, volatile = False, screen = False\<rparr>"

definition example_image_13 :: "(nat, real) rimage" where
  "example_image_13 =
     \<lparr>image_r = Some \<lparr>gid = 3, gwidth = 8, gheight = 8\<rparr>, basePixels = None,
      drawImageHistory = [], stale = False, volatile = True, screen = False\<rparr>"

definition example_world :: "(nat, real) world" where
  "example_world =
     \<lparr>eimages = (\<lambda>p. if p = 1 then Some 11 else if p = 2 then Some 12
                       else if p = 3 then Some 13 else None),
      rimages = (\<lambda>r. if r = 11 then example_image_11 else if r = 12 then example_image_12
                       else example_image_13),
      theImagesForRestoring = \<lparr>images_m = [11, 12, 13], lastChecked = None\<rparr>,
      theImages = \<lparr>images_m = [11, 12, 13], lastChecked = None\<rparr>,
      glog = [], gnext = 4\<rparr>"

text \<open>
  A GL context that reads back black pixels, and stand-ins for the two methods of the
  older \<open>restorable.Image\<close> that only pass the draw or the pixels on to package graphics.
\<close>

definition example_outside :: "(nat, real) outside" where
  "example_outside =
     \<lparr>IsRestoringEnabled = True,
      Pixels = (\<lambda>sent g. Some (replicate (nat (4 * gwidth g * gheight g)) 0)),
      NextPowerOf2Int = (\<lambda>n. case next_pow2_loop 1 n of Some w \<Rightarrow> w | None \<Rightarrow> 0),
      zeroDrawImageOptions =
        \<lparr>ColorM = 0, CompositeMode = 0, vertices_of_parts = (\<lambda>w h. replicate 40 0)\<rparr>,
      restorable_DrawImage_vertices =
        (\<lambda>r s vs colorm mode w.
           case image_r (rimages w r) of
             None \<Rightarrow> Inl PanicNilDereference
           | Some g \<Rightarrow>
               Inr (w\<lparr>glog := glog w @ [GDrawImage g (image_r (rimages w s)) vs colorm mode 0]\<rparr>)),
      restorable_ReplacePixels_all =
        (\<lambda>r pix w.
           case image_r (rimages w r) of
             None \<Rightarrow> Inl PanicNilDereference
           | Some g \<Rightarrow>
               Inr (w\<lparr>glog := glog w @ [GReplacePixels g pix 0 0 (gwidth g) (gheight g)]\<rparr>))\<rparr>"

section \<open>Properties of the command queue\<close>

lemma nth_foldl_update_const:
  "k < length vs \<Longrightarrow>
   foldl (\<lambda>a j. a[i + j := one]) vs js ! k = (if \<exists>j\<in>set js. k = i + j then one else vs ! k)"
proof (induction js arbitrary: vs)
  case Nil
  then show ?case by simp
next
  case (Cons j js)
  then show ?case by (auto simp: nth_list_update)
qed

lemma nth_set_tint:
  "k < length vs \<Longrightarrow>
   set_tint one i vs ! k = (if i + 6 \<le> k \<and> k < i + VertexSizeInFloats then one else vs ! k)"
proof -
  assume k: "k < length vs"
  have "(\<exists>j\<in>set [6..<VertexSizeInFloats]. k = i + j) \<longleftrightarrow> (i + 6 \<le> k \<and> k < i + VertexSizeInFloats)"
  proof
    assume "\<exists>j\<in>set [6..<VertexSizeInFloats]. k = i + j"
    then show "i + 6 \<le> k \<and> k < i + VertexSizeInFloats" by auto
  next
    assume "i + 6 \<le> k \<and> k < i + VertexSizeInFloats"
    then have "k - i \<in> set [6..<VertexSizeInFloats]" "k = i + (k - i)" by auto
    then show "\<exists>j\<in>set [6..<VertexSizeInFloats]. k = i + j" by blast
  qed
  with k show ?thesis
    unfolding set_tint_def by (simp only: nth_foldl_update_const)
qed

lemma populate_color_result:
  "i \<le> length vs \<Longrightarrow> (length vs - i) mod VertexSizeInFloats = 0 \<Longrightarrow>
   \<exists>vs'. populate_color one i vs = Inr vs' \<and> length vs' = length vs \<and>
     (\<forall>k < length vs. vs' ! k =
        (if i \<le> k \<and> 6 \<le> (k - i) mod VertexSizeInFloats then one else vs ! k))"
proof (induction one i vs rule: populate_color.induct)
  case (1 one i vs)
  show ?case
  proof (cases "i < length vs")
    case False
    then show ?thesis using 1(2) by (subst populate_color.simps) simp
  next
    case True
    have ge: "i + VertexSizeInFloats \<le> length vs"
    proof -
      have "VertexSizeInFloats dvd length vs - i" using 1(3) by (simp add: mod_eq_0_iff_dvd)
      moreover have "0 < length vs - i" using True by simp
      ultimately have "VertexSizeInFloats \<le> length vs - i" by (rule dvd_imp_le)
      then show ?thesis using True by simp
    qed
    have m: "(length (set_tint one i vs) - (i + VertexSizeInFloats)) mod VertexSizeInFloats = 0"
    proof -
      have "VertexSizeInFloats dvd length vs - i" using 1(3) by (simp add: mod_eq_0_iff_dvd)
      then have "VertexSizeInFloats dvd (length vs - i) - VertexSizeInFloats"
        by (rule dvd_diff_nat) simp
      then have "VertexSizeInFloats dvd length vs - (i + VertexSizeInFloats)"
        by (simp only: diff_diff_left)
      then show ?thesis by (simp add: length_set_tint mod_eq_0_iff_dvd)
    qed
    from 1(1)[OF True _ _ m] ge
    obtain vs' where r: "populate_color one (i + VertexSizeInFloats) (set_tint one i vs) = Inr vs'"
      and l: "length vs' = length vs"
      and n: "\<forall>k < length vs. vs' ! k =
        (if i + VertexSizeInFloats \<le> k \<and> 6 \<le> (k - (i + VertexSizeInFloats)) mod VertexSizeInFloats
         then one else set_tint one i vs ! k)"
      by (auto simp: length_set_tint)
    have "populate_color one i vs = Inr vs'"
      using True ge r by (subst populate_color.simps) simp
    moreover have "\<forall>k < length vs. vs' ! k =
        (if i \<le> k \<and> 6 \<le> (k - i) mod VertexSizeInFloats then one else vs ! k)"
    proof (intro allI impI)
      fix k assume k: "k < length vs"
      show "vs' ! k = (if i \<le> k \<and> 6 \<le> (k - i) mod VertexSizeInFloats then one else vs ! k)"
      proof (cases "i + VertexSizeInFloats \<le> k")
        case True
        then have "(k - i) mod VertexSizeInFloats = (k - (i + VertexSizeInFloats)) mod VertexSizeInFloats"
          using le_mod_geq [of VertexSizeInFloats "k - i"] by (simp add: diff_diff_left)
        with True k n show ?thesis by (simp add: nth_set_tint)
      next
        case False
        then have "i \<le> k \<Longrightarrow> (k - i) mod VertexSizeInFloats = k - i"
          by simp
        with False show ?thesis using k n by (auto simp: nth_set_tint)
      qed
    qed
    ultimately show ?thesis using l by blast
  qed
qed

lemma length_appendIndices:
  "length (indices (appendIndices q idx off)) = max (length (indices q)) (nindices q + length idx)"
  by (auto simp: appendIndices_def Let_def length_foldl_update)

lemma Enqueue_Inr:
  assumes "length idx \<le> indicesNum" "populate_color one 0 vs = Inr vs'"
  shows "\<exists>q'. EnqueueDrawImageCommand indicesNum one q dst src vs idx clr mode flt = Inr q' \<and>
         vertices q' = vertices q @ vs' \<and>
         nindices q' = nindices q + length idx \<and>
         length (indices q') = max (length (indices q)) (nindices q + length idx) \<and>
         tmpNumIndices q' =
           (if tmpNumIndices q + length idx > indicesNum then 0 else tmpNumIndices q) + length idx \<and>
         commands q' =
           (if \<not> tmpNumIndices q + length idx > indicesNum \<and> commands q \<noteq> [] \<and>
               CanMerge (last (commands q)) dst src clr mode flt
            then butlast (commands q) @
                 [AddNumIndices (AddNumVertices (last (commands q)) (length vs')) (length idx)]
            else commands q @ [DrawImageCommand dst src (length vs') (length idx) clr mode flt])"
  using assms
  by (simp add: EnqueueDrawImageCommand_def Let_def appendVertices_def appendIndices_def
      length_foldl_update doEnqueueDrawImageCommand_def)

text \<open>
  Claim C3. \<open>EnqueueDrawImageCommand\<close>, given at most \<open>indicesNum\<close> indices and a
  whole number of vertices, returns a queue whose vertex array is the old one followed by
  the given vertices in which, in every vertex, the floats 6 to 9 (the tint channels)
  have been replaced by 1.0 and the floats 0 to 5 are untouched: whatever tint the vertex
  builder wrote, the queue stores opaque white.
\<close>

theorem Enqueue_tint_white:
  assumes "length idx \<le> indicesNum" and "length vs mod VertexSizeInFloats = 0"
  shows "\<exists>q' vs'. EnqueueDrawImageCommand indicesNum one q dst src vs idx clr mode flt = Inr q' \<and>
     vertices q' = vertices q @ vs' \<and> length vs' = length vs \<and>
     (\<forall>k < length vs. vs' ! k = (if 6 \<le> k mod VertexSizeInFloats then one else vs ! k))"
proof -
  from populate_color_result [of 0 vs one] assms(2)
  obtain vs' where p: "populate_color one 0 vs = Inr vs'" and l: "length vs' = length vs"
    and n: "\<forall>k < length vs. vs' ! k = (if 6 \<le> k mod VertexSizeInFloats then one else vs ! k)"
    by auto
  from Enqueue_Inr [OF assms(1) p, of q dst src clr mode flt]
  obtain q' where "EnqueueDrawImageCommand indicesNum one q dst src vs idx clr mode flt = Inr q'"
    and "vertices q' = vertices q @ vs'" by blast
  with l n show ?thesis by blast
qed

theorem Enqueue_tint_white_witness:
  "length [0, 1, 2, 1, 2, 3 :: 16 word] \<le> 65536 \<and>
   length [0, 0, 0, 0, 1, 1, 1/2, 1/4, 0, 1/2 :: real] mod VertexSizeInFloats = 0 \<and>
   (\<exists>q' vs'. EnqueueDrawImageCommand 65536 1 (theCommandQueue :: (nat, real) commandQueue) 1 2
        [0, 0, 0, 0, 1, 1, 1/2, 1/4, 0, 1/2] [0, 1, 2, 1, 2, 3] 0 0 0 = Inr q' \<and>
      vertices q' = vertices (theCommandQueue :: (nat, real) commandQueue) @ vs' \<and>
      length vs' = length [0, 0, 0, 0, 1, 1, 1/2, 1/4, 0, 1/2 :: real] \<and>
      (\<forall>k < length [0, 0, 0, 0, 1, 1, 1/2, 1/4, 0, 1/2 :: real].
         vs' ! k = (if 6 \<le> k mod VertexSizeInFloats then 1
                    else [0, 0, 0, 0, 1, 1, 1/2, 1/4, 0, 1/2] ! k)))"
  using Enqueue_tint_white [of "[0, 1, 2, 1, 2, 3]" 65536 "[0, 0, 0, 0, 1, 1, 1/2, 1/4, 0, 1/2 :: real]"
      1 "theCommandQueue :: (nat, real) commandQueue" 1 2 0 0 0]
  by (simp add: VertexSizeInFloats_def)

subsection \<open>Flush\<close>

lemma total_indices_simps [simp]:
  "total_indices [] = 0"
  "total_indices (c # cs) = NumIndices c + total_indices cs"
  "total_indices (xs @ ys) = total_indices xs + total_indices ys"
  by (simp_all add: total_indices_def)

lemma total_vertices_simps [simp]:
  "total_vertices [] = 0"
  "total_vertices (c # cs) = NumVertices c + total_vertices cs"
  "total_vertices (xs @ ys) = total_vertices xs + total_vertices ys"
  by (simp_all add: total_vertices_def)

lemma total_indices_take_drop:
  "total_indices (take k cs) + total_indices (drop k cs) = total_indices cs"
  using total_indices_simps(3) [of "take k cs" "drop k cs"] by simp

lemma total_vertices_take_drop:
  "total_vertices (take k cs) + total_vertices (drop k cs) = total_vertices cs"
  using total_vertices_simps(3) [of "take k cs" "drop k cs"] by simp

lemma total_indices_take_mono:
  "a \<le> b \<Longrightarrow> total_indices (take a cs) \<le> total_indices (take b cs)"
proof -
  assume "a \<le> b"
  then have "take b cs = take a cs @ take (b - a) (drop a cs)"
    by (metis le_add_diff_inverse take_add)
  then show ?thesis by simp
qed

lemma flush_scan_ok:
  "\<forall>c\<in>set cs. NumIndices c \<le> n \<Longrightarrow> \<exists>r. flush_scan n cs nv ne nc = Inr r"
  by (induction n cs nv ne nc rule: flush_scan.induct) auto

lemma flush_scan_panics:
  "flush_scan n cs nv ne nc = Inl e \<Longrightarrow> e = PanicNotReachedFlush \<and> (\<exists>c\<in>set cs. n < NumIndices c)"
  by (induction n cs nv ne nc rule: flush_scan.induct) (auto split: if_splits)

lemma flush_scan_result:
  "flush_scan n cs nv ne nc = Inr (nv', ne', nc') \<Longrightarrow>
   nc \<le> nc' \<and> nc' - nc \<le> length cs \<and>
   ne' = ne + total_indices (take (nc' - nc) cs) \<and>
   nv' = nv + total_vertices (take (nc' - nc) cs) \<and>
   (nc' - nc < length cs \<longrightarrow> n < ne' + NumIndices (cs ! (nc' - nc))) \<and>
   (ne \<le> n \<longrightarrow> ne' \<le> n)"
proof (induction n cs nv ne nc rule: flush_scan.induct)
  case (1 n nv ne nc)
  then show ?case by simp
next
  case (2 n c cs nv ne nc)
  show ?case
  proof (cases "n < NumIndices c \<or> n < ne + NumIndices c")
    case True
    with 2(2) show ?thesis by (auto split: if_splits)
  next
    case False
    with 2(2) have r: "flush_scan n cs (nv + NumVertices c) (ne + NumIndices c) (nc + 1) = Inr (nv', ne', nc')"
      by (simp split: if_splits)
    from False have a: "\<not> n < NumIndices c" "\<not> n < ne + NumIndices c" by auto
    note ih = 2(1) [OF a r]
    from ih have "nc + 1 \<le> nc'" by simp
    then obtain d where d: "nc' - nc = Suc d" "nc' - (nc + 1) = d"
      by (metis Suc_diff_Suc Suc_eq_plus1 Suc_le_lessD diff_Suc_eq_diff_pred diff_Suc_1)
    show ?thesis using ih a unfolding d by (auto simp: add.assoc)
  qed
qed

lemma flush_scan_longest:
  assumes "flush_scan n cs 0 0 0 = Inr (nv, ne, nc)" and "k \<le> length cs"
    and "total_indices (take k cs) \<le> n"
  shows "k \<le> nc"
proof (rule ccontr)
  assume "\<not> k \<le> nc"
  then have lt: "nc < k" by simp
  from flush_scan_result [OF assms(1)]
  have ne: "ne = total_indices (take nc cs)"
    and ex: "nc < length cs \<longrightarrow> n < ne + NumIndices (cs ! nc)" by auto
  from lt assms(2) have l: "nc < length cs" by simp
  then have "take (Suc nc) cs = take nc cs @ [cs ! nc]"
    by (simp add: take_Suc_conv_app_nth)
  then have "total_indices (take (Suc nc) cs) = ne + NumIndices (cs ! nc)"
    using ne by simp
  moreover have "total_indices (take (Suc nc) cs) \<le> total_indices (take k cs)"
    using lt by (intro total_indices_take_mono) simp
  ultimately show False using ex l assms(3) by simp
qed

lemma flush_exec_ok:
  "\<forall>c\<in>set cs. \<forall>k. \<not> fails c k \<Longrightarrow>
   \<exists>xs. flush_exec fails cs off = Inr xs \<and> map fst xs = cs"
proof (induction cs arbitrary: off)
  case Nil
  then show ?case by simp
next
  case (Cons c cs)
  from Cons.prems have "\<forall>c\<in>set cs. \<forall>k. \<not> fails c k" by simp
  from Cons.IH [OF this, of "off + NumIndices c * 2"]
  obtain xs where "flush_exec fails cs (off + NumIndices c * 2) = Inr xs" "map fst xs = cs"
    by blast
  with Cons.prems show ?case by simp
qed

lemma flush_loop_partitions:
  assumes "\<forall>c\<in>set cmds. NumIndices c \<le> n"
    and "\<forall>c\<in>set cmds. \<forall>k. \<not> fails c k"
    and "total_indices cmds \<le> length es"
    and "total_vertices cmds \<le> length vs"
  shows "\<exists>chunks. flush_loop n fails cmds es vs = Inr chunks \<and>
           concat (map chunk_commands chunks) = cmds \<and>
           longest_prefix_chunks n (map chunk_commands chunks) \<and>
           (\<forall>ch\<in>set chunks. length (chunk_indices ch) = total_indices (chunk_commands ch))"
  using assms
proof (induction n fails cmds es vs rule: flush_loop.induct)
  case (1 n fails cmds es vs)
  show ?case
  proof (cases "cmds = []")
    case True
    then show ?thesis by (subst flush_loop.simps) simp
  next
    case False
    from flush_scan_ok [OF "1.prems"(1), of 0 0 0]
    obtain nv ne nc where scan: "flush_scan n cmds 0 0 0 = Inr (nv, ne, nc)"
      by (metis prod_cases3)
    from flush_scan_result [OF scan]
    have nc_le: "nc \<le> length cmds" and ne: "ne = total_indices (take nc cmds)"
      and nv: "nv = total_vertices (take nc cmds)" and ne_le: "ne \<le> n"
      by auto
    have nc_pos: "0 < nc"
    proof (cases cmds)
      case Nil
      with False show ?thesis by simp
    next
      case (Cons c cs)
      with scan show ?thesis using flush_scan_progress [of n c cs nv ne nc] by blast
    qed
    have ti: "ne + total_indices (drop nc cmds) = total_indices cmds"
      unfolding ne by (rule total_indices_take_drop)
    have tv: "nv + total_vertices (drop nc cmds) = total_vertices cmds"
      unfolding nv by (rule total_vertices_take_drop)
    have fits: "\<not> (0 < ne \<and> (length es < ne \<or> length vs < nv))"
      using "1.prems"(3,4) ti tv by linarith
    have "\<forall>c\<in>set (take nc cmds). \<forall>k. \<not> fails c k"
      using "1.prems"(2) by (meson in_set_takeD)
    from flush_exec_ok [OF this, of 0]
    obtain xs where ex: "flush_exec fails (take nc cmds) 0 = Inr xs" and xs: "map fst xs = take nc cmds"
      by blast
    have p1: "\<forall>c\<in>set (drop nc cmds). NumIndices c \<le> n"
      using "1.prems"(1) by (meson in_set_dropD)
    have p2: "\<forall>c\<in>set (drop nc cmds). \<forall>k. \<not> fails c k"
      using "1.prems"(2) by (meson in_set_dropD)
    have p3: "total_indices (drop nc cmds) \<le> length (if 0 < ne then drop ne es else es)"
    proof -
      have "total_indices (drop nc cmds) \<le> length es - ne"
        using "1.prems"(3) ti by linarith
      then show ?thesis by auto
    qed
    have p4: "total_vertices (drop nc cmds) \<le> length (if 0 < ne then drop nv vs else vs)"
    proof -
      have "total_vertices (drop nc cmds) \<le> length vs - nv"
        using "1.prems"(4) tv by linarith
      then show ?thesis by auto
    qed
    from "1.IH" [OF False scan refl refl fits ex p1 p2 p3 p4]
    obtain chunks where
      rest: "flush_loop n fails (drop nc cmds) (if 0 < ne then drop ne es else es)
               (if 0 < ne then drop nv vs else vs) = Inr chunks"
      and cc: "concat (map chunk_commands chunks) = drop nc cmds"
      and lp: "longest_prefix_chunks n (map chunk_commands chunks)"
      and ci: "\<forall>ch\<in>set chunks. length (chunk_indices ch) = total_indices (chunk_commands ch)"
      by blast
    define ch :: "('a, 'b) chunk" where
      "ch = \<lparr>chunk_indices = (if 0 < ne then take ne es else []),
             chunk_vertices = (if 0 < ne then take nv vs else []),
             chunk_execs = xs\<rparr>"
    have res: "flush_loop n fails cmds es vs = Inr (ch # chunks)"
      using False scan fits ex rest unfolding ch_def
      by (subst flush_loop.simps) simp
    have chc: "chunk_commands ch = take nc cmds"
      by (simp add: ch_def chunk_commands_def xs)
    have cat: "concat (map chunk_commands (ch # chunks)) = cmds"
      by (simp add: chc cc)
    have len: "length (chunk_indices ch) = total_indices (chunk_commands ch)"
    proof -
      have "ne \<le> length es" using "1.prems"(3) ti by linarith
      then have "length (chunk_indices ch) = ne" by (auto simp: ch_def)
      then show ?thesis using ne by (simp only: chc)
    qed
    have longest: "\<forall>k \<in> {0..length cmds}. total_indices (take k cmds) \<le> n \<longrightarrow> k \<le> length (take nc cmds)"
      using flush_scan_longest [OF scan] nc_le by auto
    have "longest_prefix_chunks n (map chunk_commands (ch # chunks))"
      using lp False nc_pos ne ne_le longest
      by (simp add: chc cc)
    with res cat len ci show ?thesis by auto
  qed
qed


lemma longest_prefix_chunks_bound:
  "longest_prefix_chunks n css \<Longrightarrow> \<forall>cs\<in>set css. total_indices cs \<le> n"
  by (induction css) auto

lemma total_indices_concat:
  "total_indices (concat css) = sum_list (map total_indices css)"
  by (induction css) auto

text \<open>
  Claim C1. Take a queue in which every command has at most \<open>indicesNum\<close> indices,
  whose arrays cover its commands, and let no \<open>Exec\<close> stop the flush. Then \<open>Flush\<close>
  returns; the chunks it executed, one after the other, are exactly the queued commands
  in order; each chunk is the longest prefix of the commands still queued whose index
  count fits in \<open>indicesNum\<close>; the index slice uploaded for a chunk has the chunk's
  index count, which is at most \<open>indicesNum\<close>; and the index counts of the chunks add
  up to the index count of the queue. The queue is empty afterwards. (Every queue that
  the package builds has arrays that cover its commands: lemma \<open>queue_built_covers\<close>.)
\<close>

theorem Flush_partitions:
  assumes "\<forall>c\<in>set (commands q). NumIndices c \<le> indicesNum"
    and "\<forall>c\<in>set (commands q). \<forall>k. \<not> fails c k"
    and "arrays_cover q"
  shows "\<exists>chunks q'. Flush indicesNum fails q = Inr (chunks, q') \<and>
           concat (map chunk_commands chunks) = commands q \<and>
           longest_prefix_chunks indicesNum (map chunk_commands chunks) \<and>
           (\<forall>ch\<in>set chunks.
              length (chunk_indices ch) = total_indices (chunk_commands ch) \<and>
              total_indices (chunk_commands ch) \<le> indicesNum) \<and>
           sum_list (map (\<lambda>ch. total_indices (chunk_commands ch)) chunks) =
             total_indices (commands q) \<and>
           commands q' = []"
proof -
  from assms(3) have "total_indices (commands q) \<le> length (indices q)"
    and "total_vertices (commands q) \<le> length (vertices q)"
    by (simp_all add: arrays_cover_def)
  from flush_loop_partitions [OF assms(1,2) this]
  obtain chunks where
    fl: "flush_loop indicesNum fails (commands q) (indices q) (vertices q) = Inr chunks"
    and cc: "concat (map chunk_commands chunks) = commands q"
    and lp: "longest_prefix_chunks indicesNum (map chunk_commands chunks)"
    and ci: "\<forall>ch\<in>set chunks. length (chunk_indices ch) = total_indices (chunk_commands ch)"
    by blast
  from longest_prefix_chunks_bound [OF lp]
  have bd: "\<forall>ch\<in>set chunks. total_indices (chunk_commands ch) \<le> indicesNum" by simp
  have "sum_list (map (\<lambda>ch. total_indices (chunk_commands ch)) chunks) =
          total_indices (concat (map chunk_commands chunks))"
    by (simp add: total_indices_concat comp_def)
  then have sm: "sum_list (map (\<lambda>ch. total_indices (chunk_commands ch)) chunks) =
          total_indices (commands q)"
    by (simp only: cc)
  show ?thesis
    using fl cc lp ci bd sm by (simp add: Flush_def)
qed

theorem Flush_partitions_witness:
  "arrays_cover \<lparr>commands = [DrawImageCommand 1 2 80 12 (0::nat) 0 0,
        DrawImageCommand 1 2 40 6 0 0 0, NewImageCommand 3 16 16],
        vertices = replicate 120 (0::real), indices = replicate 18 0, nindices = 18,
        tmpNumIndices = 6, nextIndex = 4\<rparr> \<and>
   (\<exists>chunks q'. Flush 12 (\<lambda>c k. False) \<lparr>commands = [DrawImageCommand 1 2 80 12 (0::nat) 0 0,
        DrawImageCommand 1 2 40 6 0 0 0, NewImageCommand 3 16 16],
        vertices = replicate 120 (0::real), indices = replicate 18 0, nindices = 18,
        tmpNumIndices = 6, nextIndex = 4\<rparr> = Inr (chunks, q') \<and>
      map chunk_commands chunks =
        [[DrawImageCommand 1 2 80 12 0 0 0],
         [DrawImageCommand 1 2 40 6 0 0 0, NewImageCommand 3 16 16]] \<and>
      longest_prefix_chunks 12 (map chunk_commands chunks) \<and>
      sum_list (map (\<lambda>ch. total_indices (chunk_commands ch)) chunks) = 18)"
proof -
  let ?q = "\<lparr>commands = [DrawImageCommand 1 2 80 12 (0::nat) 0 0,
        DrawImageCommand 1 2 40 6 0 0 0, NewImageCommand 3 16 16],
        vertices = replicate 120 (0::real), indices = replicate 18 0, nindices = 18,
        tmpNumIndices = 6, nextIndex = 4\<rparr>"
  have h1: "\<forall>c\<in>set (commands ?q). NumIndices c \<le> 12" by simp
  have h2: "\<forall>c\<in>set (commands ?q). \<forall>k. \<not> (\<lambda>c k. False) c k" by simp
  have h3: "arrays_cover ?q" by (simp add: arrays_cover_def)
  have ev: "flush_loop 12 (\<lambda>c k. False) (commands ?q) (indices ?q) (vertices ?q) =
     Inr [\<lparr>chunk_indices = replicate 12 0, chunk_vertices = replicate 80 0,
            chunk_execs = [(DrawImageCommand 1 2 80 12 0 0 0, 0)]\<rparr>,
          \<lparr>chunk_indices = replicate 6 0, chunk_vertices = replicate 40 0,
            chunk_execs = [(DrawImageCommand 1 2 40 6 0 0 0, 0), (NewImageCommand 3 16 16, 12)]\<rparr>]"
    by (simp add: flush_loop.simps)
  from Flush_partitions [OF h1 h2 h3] ev h1 h2 h3 show ?thesis
    by (simp add: Flush_def chunk_commands_def)
qed


lemma flush_scan_taken_bound:
  "flush_scan n cs nv ne nc = Inr (nv', ne', nc') \<Longrightarrow>
   \<forall>c\<in>set (take (nc' - nc) cs). NumIndices c \<le> n"
proof (induction n cs nv ne nc rule: flush_scan.induct)
  case (1 n nv ne nc)
  then show ?case by simp
next
  case (2 n c cs nv ne nc)
  show ?case
  proof (cases "n < NumIndices c \<or> n < ne + NumIndices c")
    case True
    with 2(2) show ?thesis by (auto split: if_splits)
  next
    case False
    with 2(2) have r: "flush_scan n cs (nv + NumVertices c) (ne + NumIndices c) (nc + 1) = Inr (nv', ne', nc')"
      by (simp split: if_splits)
    from False have a: "\<not> n < NumIndices c" "\<not> n < ne + NumIndices c" by auto
    note ih = 2(1) [OF a r]
    from flush_scan_count [OF r] have "nc + 1 \<le> nc'" by simp
    then obtain d where d: "nc' - nc = Suc d" "nc' - (nc + 1) = d"
      by (metis Suc_diff_Suc Suc_eq_plus1 Suc_le_lessD diff_Suc_eq_diff_pred diff_Suc_1)
    show ?thesis using ih a unfolding d by auto
  qed
qed

lemma flush_exec_error: "flush_exec fails cs off = Inl e \<Longrightarrow> e = ExecError"
  by (induction cs arbitrary: off) (auto split: if_splits sum.splits)

lemma flush_loop_panics:
  assumes "\<exists>c\<in>set cmds. n < NumIndices c"
    and "\<forall>c\<in>set cmds. \<forall>k. \<not> fails c k"
    and "total_indices cmds \<le> length es"
    and "total_vertices cmds \<le> length vs"
  shows "flush_loop n fails cmds es vs = Inl PanicNotReachedFlush"
  using assms
proof (induction n fails cmds es vs rule: flush_loop.induct)
  case (1 n fails cmds es vs)
  from "1.prems"(1) have ne_cmds: "cmds \<noteq> []" by auto
  show ?case
  proof (cases "flush_scan n cmds 0 0 0")
    case (Inl e)
    with flush_scan_panics [OF Inl] ne_cmds show ?thesis
      by (subst flush_loop.simps) simp
  next
    case (Inr r)
    then obtain nv ne nc where scan: "flush_scan n cmds 0 0 0 = Inr (nv, ne, nc)"
      by (metis prod_cases3)
    from flush_scan_result [OF scan]
    have ne: "ne = total_indices (take nc cmds)" and nv: "nv = total_vertices (take nc cmds)"
      by auto
    have ti: "ne + total_indices (drop nc cmds) = total_indices cmds"
      unfolding ne by (rule total_indices_take_drop)
    have tv: "nv + total_vertices (drop nc cmds) = total_vertices cmds"
      unfolding nv by (rule total_vertices_take_drop)
    have fits: "\<not> (0 < ne \<and> (length es < ne \<or> length vs < nv))"
      using "1.prems"(3,4) ti tv by linarith
    have "\<forall>c\<in>set (take nc cmds). \<forall>k. \<not> fails c k"
      using "1.prems"(2) by (meson in_set_takeD)
    from flush_exec_ok [OF this, of 0]
    obtain xs where ex: "flush_exec fails (take nc cmds) 0 = Inr xs" by blast
    from flush_scan_taken_bound [OF scan]
    have "\<forall>c\<in>set (take nc cmds). NumIndices c \<le> n" by simp
    with "1.prems"(1) have p1: "\<exists>c\<in>set (drop nc cmds). n < NumIndices c"
      by (metis append_take_drop_id Un_iff set_append not_le)
    have p2: "\<forall>c\<in>set (drop nc cmds). \<forall>k. \<not> fails c k"
      using "1.prems"(2) by (meson in_set_dropD)
    have p3: "total_indices (drop nc cmds) \<le> length (if 0 < ne then drop ne es else es)"
    proof -
      have "total_indices (drop nc cmds) \<le> length es - ne"
        using "1.prems"(3) ti by linarith
      then show ?thesis by auto
    qed
    have p4: "total_vertices (drop nc cmds) \<le> length (if 0 < ne then drop nv vs else vs)"
    proof -
      have "total_vertices (drop nc cmds) \<le> length vs - nv"
        using "1.prems"(4) tv by linarith
      then show ?thesis by auto
    qed
    from "1.IH" [OF ne_cmds scan refl refl fits ex p1 p2 p3 p4]
    show ?thesis using ne_cmds scan fits ex
      by (subst flush_loop.simps) simp
  qed
qed

lemma flush_loop_not_reached:
  "flush_loop n fails cmds es vs = Inl PanicNotReachedFlush \<Longrightarrow>
   \<exists>c\<in>set cmds. n < NumIndices c"
proof (induction n fails cmds es vs rule: flush_loop.induct)
  case (1 n fails cmds es vs)
  from "1.prems" have ne_cmds: "cmds \<noteq> []"
    by (subst (asm) flush_loop.simps) (auto split: if_splits)
  show ?case
  proof (cases "flush_scan n cmds 0 0 0")
    case (Inl e)
    from flush_scan_panics [OF Inl] show ?thesis by blast
  next
    case (Inr r)
    then obtain nv ne nc where scan: "flush_scan n cmds 0 0 0 = Inr (nv, ne, nc)"
      by (metis prod_cases3)
    show ?thesis
    proof (cases "0 < ne \<and> (length es < ne \<or> length vs < nv)")
      case True
      with "1.prems" ne_cmds scan show ?thesis
        by (subst (asm) flush_loop.simps) simp
    next
      case fits: False
      show ?thesis
      proof (cases "flush_exec fails (take nc cmds) 0")
        case (Inl e)
        with flush_exec_error [OF Inl] "1.prems" ne_cmds scan fits show ?thesis
          by (subst (asm) flush_loop.simps) simp
      next
        case (Inr xs)
        with "1.prems" ne_cmds scan fits
        have "flush_loop n fails (drop nc cmds) (if 0 < ne then drop ne es else es)
               (if 0 < ne then drop nv vs else vs) = Inl PanicNotReachedFlush"
          by (subst (asm) flush_loop.simps) (auto split: sum.splits if_splits)
        from "1.IH" [OF ne_cmds scan refl refl fits Inr this]
        show ?thesis by (meson in_set_dropD)
      qed
    qed
  qed
qed

subsection \<open>Merging\<close>

lemma CanMerge_iff:
  "CanMerge c dst src clr mode flt \<longleftrightarrow>
   (\<exists>nv ni. c = DrawImageCommand dst src nv ni clr mode flt)"
  by (cases c) (auto simp: ColorM_Equals_def)

lemma populate_color_length:
  "populate_color one i vs = Inr vs' \<Longrightarrow> length vs' = length vs"
proof (induction one i vs rule: populate_color.induct)
  case (1 one i vs)
  show ?case
  proof (cases "i < length vs")
    case False
    with "1.prems" show ?thesis by (subst (asm) populate_color.simps) simp
  next
    case True
    with "1.prems" have ge: "\<not> length vs < i + VertexSizeInFloats"
      and r: "populate_color one (i + VertexSizeInFloats) (set_tint one i vs) = Inr vs'"
      by (subst (asm) populate_color.simps, simp split: if_splits)+
    from "1.IH" [OF True ge r] show ?thesis by (simp add: length_set_tint)
  qed
qed

lemma Enqueue_InrD:
  assumes "EnqueueDrawImageCommand indicesNum one q dst src vs idx clr mode flt = Inr q'"
  shows "length idx \<le> indicesNum \<and>
         (\<exists>vs'. populate_color one 0 vs = Inr vs' \<and> length vs' = length vs)"
proof -
  from assms have l: "length idx \<le> indicesNum"
    by (simp add: EnqueueDrawImageCommand_def split: if_splits)
  with assms obtain vs' where p: "populate_color one 0 vs = Inr vs'"
    by (cases "populate_color one 0 vs") (simp_all add: EnqueueDrawImageCommand_def)
  with l populate_color_length [OF p] show ?thesis by blast
qed

lemma Enqueue_commands:
  assumes "EnqueueDrawImageCommand indicesNum one q dst src vs idx clr mode flt = Inr q'"
  shows "commands q' =
           (if tmpNumIndices q + length idx \<le> indicesNum \<and> commands q \<noteq> [] \<and>
               CanMerge (last (commands q)) dst src clr mode flt
            then butlast (commands q) @
                 [AddNumIndices (AddNumVertices (last (commands q)) (length vs)) (length idx)]
            else commands q @ [DrawImageCommand dst src (length vs) (length idx) clr mode flt])"
    and "tmpNumIndices q' =
           (if tmpNumIndices q + length idx > indicesNum then 0 else tmpNumIndices q) + length idx"
proof -
  from Enqueue_InrD [OF assms] obtain vs' where l: "length idx \<le> indicesNum"
    and p: "populate_color one 0 vs = Inr vs'" and lv: "length vs' = length vs" by blast
  from Enqueue_Inr [OF l p, of q dst src clr mode flt] assms lv
  show "commands q' =
           (if tmpNumIndices q + length idx \<le> indicesNum \<and> commands q \<noteq> [] \<and>
               CanMerge (last (commands q)) dst src clr mode flt
            then butlast (commands q) @
                 [AddNumIndices (AddNumVertices (last (commands q)) (length vs)) (length idx)]
            else commands q @ [DrawImageCommand dst src (length vs) (length idx) clr mode flt])"
    and "tmpNumIndices q' =
           (if tmpNumIndices q + length idx > indicesNum then 0 else tmpNumIndices q) + length idx"
    by (auto simp: not_less)
qed

text \<open>
  Claim C2, as amended. A call of \<open>EnqueueDrawImageCommand\<close> that does not panic
  merges the new draw into the last queued command exactly when there is a last command,
  no buffer-boundary split is forced (the index count since the last split plus the new
  indices fits in \<open>indicesNum\<close>), and the last command is a draw command with the same
  target, source, colour transform (equal as a value), blend mode and filter; the tint
  takes no part. Merging replaces the last command by the same command with the new
  vertex and index counts added; otherwise one new draw command with the new counts is
  appended. Nothing else in the list of commands changes.
\<close>

theorem Enqueue_merge_rule:
  assumes "length idx \<le> indicesNum" and "length vs mod VertexSizeInFloats = 0"
  shows "\<exists>q'. EnqueueDrawImageCommand indicesNum one q dst src vs idx clr mode flt = Inr q' \<and>
         (length (commands q') = length (commands q) \<longleftrightarrow>
            commands q \<noteq> [] \<and> tmpNumIndices q + length idx \<le> indicesNum \<and>
            (\<exists>nv ni. last (commands q) = DrawImageCommand dst src nv ni clr mode flt)) \<and>
         (length (commands q') = length (commands q) \<longrightarrow>
            (\<exists>nv ni. last (commands q) = DrawImageCommand dst src nv ni clr mode flt \<and>
               commands q' = butlast (commands q) @
                 [DrawImageCommand dst src (nv + length vs) (ni + length idx) clr mode flt])) \<and>
         (length (commands q') \<noteq> length (commands q) \<longrightarrow>
            commands q' = commands q @
              [DrawImageCommand dst src (length vs) (length idx) clr mode flt])"
proof -
  from populate_color_result [of 0 vs one] assms(2)
  obtain vs' where p: "populate_color one 0 vs = Inr vs'" by auto
  from Enqueue_Inr [OF assms(1) p, of q dst src clr mode flt]
  obtain q' where e: "EnqueueDrawImageCommand indicesNum one q dst src vs idx clr mode flt = Inr q'"
    by blast
  show ?thesis
  proof (cases "tmpNumIndices q + length idx \<le> indicesNum \<and> commands q \<noteq> [] \<and>
               CanMerge (last (commands q)) dst src clr mode flt")
    case True
    then obtain nv ni where lst: "last (commands q) = DrawImageCommand dst src nv ni clr mode flt"
      by (auto simp: CanMerge_iff)
    from Enqueue_commands(1) [OF e] True
    have "commands q' = butlast (commands q) @
        [AddNumIndices (AddNumVertices (last (commands q)) (length vs)) (length idx)]"
      by simp
    then have c: "commands q' = butlast (commands q) @
        [DrawImageCommand dst src (nv + length vs) (ni + length idx) clr mode flt]"
      by (simp add: lst)
    moreover from c True have "length (commands q') = length (commands q)" by simp
    ultimately show ?thesis using True lst e by auto
  next
    case False
    with Enqueue_commands(1) [OF e]
    have c: "commands q' = commands q @
        [DrawImageCommand dst src (length vs) (length idx) clr mode flt]"
      by auto
    then have "length (commands q') \<noteq> length (commands q)" by simp
    with c False e show ?thesis by (auto simp: CanMerge_iff)
  qed
qed

lemma draw_repeatedly_merges:
  assumes "\<forall>d\<in>set ds. length (fst d) mod VertexSizeInFloats = 0"
    and "tmpNumIndices q + sum_list (map (\<lambda>d. length (snd d)) ds) \<le> indicesNum"
    and "commands q = pre @ [DrawImageCommand dst src nv ni clr mode flt]"
  shows "\<exists>q'. draw_repeatedly indicesNum one q dst src ds clr mode flt = Inr q' \<and>
           commands q' = pre @ [DrawImageCommand dst src
              (nv + sum_list (map (\<lambda>d. length (fst d)) ds))
              (ni + sum_list (map (\<lambda>d. length (snd d)) ds)) clr mode flt] \<and>
           tmpNumIndices q' = tmpNumIndices q + sum_list (map (\<lambda>d. length (snd d)) ds)"
  using assms
proof (induction ds arbitrary: q nv ni)
  case Nil
  then show ?case by simp
next
  case (Cons d ds)
  from Cons.prems(2) have li: "length (snd d) \<le> indicesNum"
    and fit: "tmpNumIndices q + length (snd d) \<le> indicesNum" by simp_all
  from Cons.prems(1) have "length (fst d) mod VertexSizeInFloats = 0" by simp
  from populate_color_result [of 0 "fst d" one] this
  obtain vs' where p: "populate_color one 0 (fst d) = Inr vs'" by auto
  from Enqueue_Inr [OF li p, of q dst src clr mode flt]
  obtain q1 where e: "EnqueueDrawImageCommand indicesNum one q dst src (fst d) (snd d) clr mode flt = Inr q1"
    by blast
  from Enqueue_commands [OF e] fit Cons.prems(3)
  have c1: "commands q1 = pre @ [DrawImageCommand dst src (nv + length (fst d)) (ni + length (snd d)) clr mode flt]"
    and t1: "tmpNumIndices q1 = tmpNumIndices q + length (snd d)"
    by (simp_all add: CanMerge_iff)
  have a1: "\<forall>d\<in>set ds. length (fst d) mod VertexSizeInFloats = 0" using Cons.prems(1) by simp
  have a2: "tmpNumIndices q1 + sum_list (map (\<lambda>d. length (snd d)) ds) \<le> indicesNum"
    using Cons.prems(2) t1 by simp
  from Cons.IH [OF a1 a2 c1] e t1 show ?case by (auto simp: add.assoc)
qed

lemma draw_repeatedly_fresh:
  assumes "ds \<noteq> []"
    and "\<forall>d\<in>set ds. length (fst d) mod VertexSizeInFloats = 0"
    and "tmpNumIndices q + sum_list (map (\<lambda>d. length (snd d)) ds) \<le> indicesNum"
    and "commands q = [] \<or> \<not> CanMerge (last (commands q)) dst src clr mode flt"
  shows "\<exists>q'. draw_repeatedly indicesNum one q dst src ds clr mode flt = Inr q' \<and>
           commands q' = commands q @ [DrawImageCommand dst src
              (sum_list (map (\<lambda>d. length (fst d)) ds))
              (sum_list (map (\<lambda>d. length (snd d)) ds)) clr mode flt] \<and>
           tmpNumIndices q' = tmpNumIndices q + sum_list (map (\<lambda>d. length (snd d)) ds)"
proof -
  from assms(1) obtain d ds' where ds: "ds = d # ds'" by (cases ds) auto
  from assms(3) ds have li: "length (snd d) \<le> indicesNum"
    and fit: "tmpNumIndices q + length (snd d) \<le> indicesNum" by simp_all
  from assms(2) ds have "length (fst d) mod VertexSizeInFloats = 0" by simp
  from populate_color_result [of 0 "fst d" one] this
  obtain vs' where p: "populate_color one 0 (fst d) = Inr vs'" by auto
  from Enqueue_Inr [OF li p, of q dst src clr mode flt]
  obtain q1 where e: "EnqueueDrawImageCommand indicesNum one q dst src (fst d) (snd d) clr mode flt = Inr q1"
    by blast
  from Enqueue_commands [OF e] fit assms(4)
  have c1: "commands q1 = commands q @ [DrawImageCommand dst src (0 + length (fst d)) (0 + length (snd d)) clr mode flt]"
    and t1: "tmpNumIndices q1 = tmpNumIndices q + length (snd d)"
    by auto
  have a1: "\<forall>d\<in>set ds'. length (fst d) mod VertexSizeInFloats = 0" using assms(2) ds by simp
  have a2: "tmpNumIndices q1 + sum_list (map (\<lambda>d. length (snd d)) ds') \<le> indicesNum"
    using assms(3) t1 ds by simp
  from draw_repeatedly_merges [OF a1 a2 c1, of one] e ds t1 show ?thesis by auto
qed

lemma Enqueue_returns:
  assumes "length idx \<le> indicesNum" and "length vs mod VertexSizeInFloats = 0"
  shows "\<exists>q'. EnqueueDrawImageCommand indicesNum one q dst src vs idx clr mode flt = Inr q'"
proof -
  from populate_color_result [of 0 vs one] assms(2)
  obtain vs' where p: "populate_color one 0 vs = Inr vs'" by auto
  from Enqueue_Inr [OF assms(1) p, of q dst src clr mode flt] show ?thesis by blast
qed

lemma draw_repeatedly_run:
  assumes "\<forall>d\<in>set ds. length (fst d) mod VertexSizeInFloats = 0"
    and "\<forall>d\<in>set ds. length (snd d) \<le> indicesNum"
    and "commands q = pre @ [DrawImageCommand dst src nv ni clr mode flt]"
    and "tmpNumIndices q \<le> indicesNum"
  shows "\<exists>q'. draw_repeatedly indicesNum one q dst src ds clr mode flt = Inr q' \<and>
           length (commands q) \<le> length (commands q') \<and>
           (length (commands q') = length (commands q) \<longleftrightarrow>
              tmpNumIndices q + sum_list (map (\<lambda>d. length (snd d)) ds) \<le> indicesNum)"
  using assms
proof (induction ds arbitrary: q pre nv ni)
  case Nil
  then show ?case by simp
next
  case (Cons d ds)
  from Cons.prems(1,2) have w: "length (fst d) mod VertexSizeInFloats = 0"
    and li: "length (snd d) \<le> indicesNum" by simp_all
  from Enqueue_returns [OF li w, of one q dst src clr mode flt]
  obtain q1 where e: "EnqueueDrawImageCommand indicesNum one q dst src (fst d) (snd d) clr mode flt = Inr q1"
    by blast
  have a1: "\<forall>d\<in>set ds. length (fst d) mod VertexSizeInFloats = 0" using Cons.prems(1) by simp
  have a2: "\<forall>d\<in>set ds. length (snd d) \<le> indicesNum" using Cons.prems(2) by simp
  have step: "draw_repeatedly indicesNum one q dst src (d # ds) clr mode flt =
      draw_repeatedly indicesNum one q1 dst src ds clr mode flt"
    by (simp add: e)
  show ?case
  proof (cases "tmpNumIndices q + length (snd d) \<le> indicesNum")
    case True
    from Enqueue_commands [OF e] True Cons.prems(3)
    have c1: "commands q1 = pre @ [DrawImageCommand dst src (nv + length (fst d)) (ni + length (snd d)) clr mode flt]"
      and t1: "tmpNumIndices q1 = tmpNumIndices q + length (snd d)"
      by (simp_all add: CanMerge_iff)
    from c1 Cons.prems(3) have l1: "length (commands q1) = length (commands q)" by simp
    from True t1 have b1: "tmpNumIndices q1 \<le> indicesNum" by simp
    from Cons.IH [OF a1 a2 c1 b1]
    obtain q' where r: "draw_repeatedly indicesNum one q1 dst src ds clr mode flt = Inr q'"
      and m: "length (commands q1) \<le> length (commands q')"
      and i: "length (commands q') = length (commands q1) \<longleftrightarrow>
              tmpNumIndices q1 + sum_list (map (\<lambda>d. length (snd d)) ds) \<le> indicesNum"
      by blast
    from r m i show ?thesis unfolding step l1 t1 by (simp add: add.assoc)
  next
    case False
    from Enqueue_commands(1) [OF e] False
    have c1: "commands q1 = commands q @ [DrawImageCommand dst src (length (fst d)) (length (snd d)) clr mode flt]"
      by simp
    then have l1: "length (commands q1) = length (commands q) + 1" by simp
    from Enqueue_commands(2) [OF e] False li have b1: "tmpNumIndices q1 \<le> indicesNum" by simp
    from Cons.IH [OF a1 a2 c1 b1]
    obtain q' where r: "draw_repeatedly indicesNum one q1 dst src ds clr mode flt = Inr q'"
      and m: "length (commands q1) \<le> length (commands q')"
      by blast
    from m l1 have "length (commands q) < length (commands q')" by simp
    moreover from False have "\<not> tmpNumIndices q + sum_list (map (\<lambda>d. length (snd d)) (d # ds)) \<le> indicesNum"
      by simp
    ultimately show ?thesis using r unfolding step by simp
  qed
qed

text \<open>
  Claim C4, as amended. Draw one or more times in immediate succession with the same
  target, source, colour transform, blend mode and filter, each time with a whole number
  of vertices and at most \<open>indicesNum\<close> indices, on any queue. Then every call returns.
  The first call is merged into the queue's last command or starts a new command, by
  the merge rule. The queue ends with exactly one command for all the calls (the list
  of commands is as long as after the first call) if and only if no buffer-boundary
  split is forced at the second or a later call, that is, if the index count since the
  last split (counted from zero when the first call forces a split) plus the indices of
  all the calls is at most \<open>indicesNum\<close>. In that case the command is a new command
  whose vertex and index counts are the sums over the calls, appended to the queue, or,
  when the first call was merged, the queue's last command with these sums added to its
  counts; nothing else in the list of commands changes.
\<close>

theorem repeated_draws_merge:
  assumes "\<forall>e\<in>set (d # ds). length (fst e) mod VertexSizeInFloats = 0"
    and "\<forall>e\<in>set (d # ds). length (snd e) \<le> indicesNum"
  shows "\<exists>q'. draw_repeatedly indicesNum one q dst src (d # ds) clr mode flt = Inr q' \<and>
     ((if indicesNum < tmpNumIndices q + length (snd d) then 0 else tmpNumIndices q) +
        sum_list (map (\<lambda>e. length (snd e)) (d # ds)) \<le> indicesNum \<longleftrightarrow>
      length (commands q') =
        (if tmpNumIndices q + length (snd d) \<le> indicesNum \<and> commands q \<noteq> [] \<and>
            CanMerge (last (commands q)) dst src clr mode flt
         then length (commands q) else length (commands q) + 1)) \<and>
     ((if indicesNum < tmpNumIndices q + length (snd d) then 0 else tmpNumIndices q) +
        sum_list (map (\<lambda>e. length (snd e)) (d # ds)) \<le> indicesNum \<longrightarrow>
      commands q' =
        (if tmpNumIndices q + length (snd d) \<le> indicesNum \<and> commands q \<noteq> [] \<and>
            CanMerge (last (commands q)) dst src clr mode flt
         then butlast (commands q) @
              [AddNumIndices
                 (AddNumVertices (last (commands q)) (sum_list (map (\<lambda>e. length (fst e)) (d # ds))))
                 (sum_list (map (\<lambda>e. length (snd e)) (d # ds)))]
         else commands q @
              [DrawImageCommand dst src (sum_list (map (\<lambda>e. length (fst e)) (d # ds)))
                 (sum_list (map (\<lambda>e. length (snd e)) (d # ds))) clr mode flt]))"
proof -
  let ?merged = "tmpNumIndices q + length (snd d) \<le> indicesNum \<and> commands q \<noteq> [] \<and>
            CanMerge (last (commands q)) dst src clr mode flt"
  from assms have w: "length (fst d) mod VertexSizeInFloats = 0"
    and li: "length (snd d) \<le> indicesNum" by simp_all
  have a1: "\<forall>d\<in>set ds. length (fst d) mod VertexSizeInFloats = 0" using assms(1) by simp
  have a2: "\<forall>d\<in>set ds. length (snd d) \<le> indicesNum" using assms(2) by simp
  from Enqueue_returns [OF li w, of one q dst src clr mode flt]
  obtain q1 where e: "EnqueueDrawImageCommand indicesNum one q dst src (fst d) (snd d) clr mode flt = Inr q1"
    by blast
  have step: "draw_repeatedly indicesNum one q dst src (d # ds) clr mode flt =
      draw_repeatedly indicesNum one q1 dst src ds clr mode flt"
    by (simp add: e)
  from Enqueue_commands(2) [OF e]
  have t1: "tmpNumIndices q1 =
      (if indicesNum < tmpNumIndices q + length (snd d) then 0 else tmpNumIndices q) + length (snd d)"
    by simp
  obtain pre nv1 ni1 where c1: "commands q1 = pre @ [DrawImageCommand dst src nv1 ni1 clr mode flt]"
    and l1: "length (commands q1) = (if ?merged then length (commands q) else length (commands q) + 1)"
    and f1: "pre @ [DrawImageCommand dst src (nv1 + sum_list (map (\<lambda>e. length (fst e)) ds))
                 (ni1 + sum_list (map (\<lambda>e. length (snd e)) ds)) clr mode flt] =
        (if ?merged
         then butlast (commands q) @
              [AddNumIndices
                 (AddNumVertices (last (commands q)) (sum_list (map (\<lambda>e. length (fst e)) (d # ds))))
                 (sum_list (map (\<lambda>e. length (snd e)) (d # ds)))]
         else commands q @
              [DrawImageCommand dst src (sum_list (map (\<lambda>e. length (fst e)) (d # ds)))
                 (sum_list (map (\<lambda>e. length (snd e)) (d # ds))) clr mode flt])"
  proof (cases ?merged)
    case True
    then obtain nv ni where lst: "last (commands q) = DrawImageCommand dst src nv ni clr mode flt"
      by (auto simp: CanMerge_iff)
    from True have ne: "commands q \<noteq> []" by simp
    from Enqueue_commands(1) [OF e] True
    have "commands q1 = butlast (commands q) @
        [AddNumIndices (AddNumVertices (last (commands q)) (length (fst d))) (length (snd d))]"
      by simp
    then have c: "commands q1 = butlast (commands q) @
        [DrawImageCommand dst src (nv + length (fst d)) (ni + length (snd d)) clr mode flt]"
      by (simp add: lst)
    from c ne have l: "length (commands q1) = length (commands q)" by simp
    have f: "butlast (commands q) @
        [DrawImageCommand dst src (nv + length (fst d) + sum_list (map (\<lambda>e. length (fst e)) ds))
           (ni + length (snd d) + sum_list (map (\<lambda>e. length (snd e)) ds)) clr mode flt] =
        butlast (commands q) @
              [AddNumIndices
                 (AddNumVertices (last (commands q)) (sum_list (map (\<lambda>e. length (fst e)) (d # ds))))
                 (sum_list (map (\<lambda>e. length (snd e)) (d # ds)))]"
      by (simp add: lst add.assoc)
    show ?thesis
    proof (rule that)
      show "commands q1 = butlast (commands q) @
        [DrawImageCommand dst src (nv + length (fst d)) (ni + length (snd d)) clr mode flt]"
        by (rule c)
      show "length (commands q1) = (if ?merged then length (commands q) else length (commands q) + 1)"
        unfolding if_P [OF True] by (rule l)
      show "butlast (commands q) @
        [DrawImageCommand dst src (nv + length (fst d) + sum_list (map (\<lambda>e. length (fst e)) ds))
           (ni + length (snd d) + sum_list (map (\<lambda>e. length (snd e)) ds)) clr mode flt] =
        (if ?merged
         then butlast (commands q) @
              [AddNumIndices
                 (AddNumVertices (last (commands q)) (sum_list (map (\<lambda>e. length (fst e)) (d # ds))))
                 (sum_list (map (\<lambda>e. length (snd e)) (d # ds)))]
         else commands q @
              [DrawImageCommand dst src (sum_list (map (\<lambda>e. length (fst e)) (d # ds)))
                 (sum_list (map (\<lambda>e. length (snd e)) (d # ds))) clr mode flt])"
        unfolding if_P [OF True] by (rule f)
    qed
  next
    case False
    from Enqueue_commands(1) [OF e] False
    have c: "commands q1 = commands q @
        [DrawImageCommand dst src (length (fst d)) (length (snd d)) clr mode flt]"
      by auto
    then have l: "length (commands q1) = length (commands q) + 1" by simp
    have f: "commands q @
        [DrawImageCommand dst src (length (fst d) + sum_list (map (\<lambda>e. length (fst e)) ds))
           (length (snd d) + sum_list (map (\<lambda>e. length (snd e)) ds)) clr mode flt] =
        commands q @
              [DrawImageCommand dst src (sum_list (map (\<lambda>e. length (fst e)) (d # ds)))
                 (sum_list (map (\<lambda>e. length (snd e)) (d # ds))) clr mode flt]"
      by simp
    show ?thesis
    proof (rule that)
      show "commands q1 = commands q @
        [DrawImageCommand dst src (length (fst d)) (length (snd d)) clr mode flt]"
        by (rule c)
      show "length (commands q1) = (if ?merged then length (commands q) else length (commands q) + 1)"
        unfolding if_not_P [OF False] by (rule l)
      show "commands q @
        [DrawImageCommand dst src (length (fst d) + sum_list (map (\<lambda>e. length (fst e)) ds))
           (length (snd d) + sum_list (map (\<lambda>e. length (snd e)) ds)) clr mode flt] =
        (if ?merged
         then butlast (commands q) @
              [AddNumIndices
                 (AddNumVertices (last (commands q)) (sum_list (map (\<lambda>e. length (fst e)) (d # ds))))
                 (sum_list (map (\<lambda>e. length (snd e)) (d # ds)))]
         else commands q @
              [DrawImageCommand dst src (sum_list (map (\<lambda>e. length (fst e)) (d # ds)))
                 (sum_list (map (\<lambda>e. length (snd e)) (d # ds))) clr mode flt])"
        unfolding if_not_P [OF False] by (rule f)
    qed
  qed
  from t1 li have b1: "tmpNumIndices q1 \<le> indicesNum" by simp
  from draw_repeatedly_run [OF a1 a2 c1 b1, of one]
  obtain q' where r: "draw_repeatedly indicesNum one q1 dst src ds clr mode flt = Inr q'"
    and i: "length (commands q') = length (commands q1) \<longleftrightarrow>
              tmpNumIndices q1 + sum_list (map (\<lambda>d. length (snd d)) ds) \<le> indicesNum"
    by blast
  have fits: "tmpNumIndices q1 + sum_list (map (\<lambda>d. length (snd d)) ds) \<le> indicesNum \<longleftrightarrow>
      (if indicesNum < tmpNumIndices q + length (snd d) then 0 else tmpNumIndices q) +
        sum_list (map (\<lambda>e. length (snd e)) (d # ds)) \<le> indicesNum"
    unfolding t1 by (simp add: add.assoc)
  have exact: "commands q' = pre @ [DrawImageCommand dst src (nv1 + sum_list (map (\<lambda>e. length (fst e)) ds))
                 (ni1 + sum_list (map (\<lambda>e. length (snd e)) ds)) clr mode flt]"
    if "tmpNumIndices q1 + sum_list (map (\<lambda>d. length (snd d)) ds) \<le> indicesNum"
    using draw_repeatedly_merges [OF a1 that c1, of one] r by simp
  from r i exact show ?thesis
    unfolding step fits [symmetric] l1 [symmetric] f1 [symmetric] by blast
qed

lemma length_quad_indices: "length quad_indices = 6"
  by (simp add: quad_indices_def)

theorem Enqueue_merge_rule_witness:
  "length quad_indices \<le> 65536 \<and> length (replicate 40 (0::real)) mod VertexSizeInFloats = 0 \<and>
   (\<exists>q'. EnqueueDrawImageCommand 65536 (1::real)
       \<lparr>commands = [DrawImageCommand 7 8 40 6 (0::nat) 0 0], vertices = replicate 40 0,
        indices = quad_indices, nindices = 6, tmpNumIndices = 6, nextIndex = 4\<rparr>
       7 8 (replicate 40 0) quad_indices 0 0 0 = Inr q' \<and>
     commands q' = [DrawImageCommand 7 8 80 12 0 0 0])"
proof -
  let ?q = "\<lparr>commands = [DrawImageCommand 7 8 40 6 (0::nat) 0 0], vertices = replicate 40 (0::real),
        indices = quad_indices, nindices = 6, tmpNumIndices = 6, nextIndex = 4\<rparr>"
  have h1: "length quad_indices \<le> 65536" by (simp add: length_quad_indices)
  have h2: "length (replicate 40 (0::real)) mod VertexSizeInFloats = 0"
    by (simp add: VertexSizeInFloats_def)
  from Enqueue_merge_rule [OF h1 h2, of 1 ?q 7 8 0 0 0]
  obtain q' where e: "EnqueueDrawImageCommand 65536 1 ?q 7 8 (replicate 40 0) quad_indices 0 0 0 = Inr q'"
    and m: "length (commands q') = length (commands ?q) \<longleftrightarrow>
            commands ?q \<noteq> [] \<and> tmpNumIndices ?q + length quad_indices \<le> 65536 \<and>
            (\<exists>nv ni. last (commands ?q) = DrawImageCommand 7 8 nv ni 0 0 0)"
    and c: "length (commands q') = length (commands ?q) \<longrightarrow>
            (\<exists>nv ni. last (commands ?q) = DrawImageCommand 7 8 nv ni 0 0 0 \<and>
               commands q' = butlast (commands ?q) @
                 [DrawImageCommand 7 8 (nv + length (replicate 40 (0::real)))
                    (ni + length quad_indices) 0 0 0])"
    by blast
  from m have "length (commands q') = length (commands ?q)"
    by (simp add: length_quad_indices)
  with c have "commands q' = [DrawImageCommand 7 8 80 12 0 0 0]"
    by (simp add: length_quad_indices)
  with e have "\<exists>q'. EnqueueDrawImageCommand 65536 1 ?q 7 8 (replicate 40 0) quad_indices 0 0 0 = Inr q' \<and>
     commands q' = [DrawImageCommand 7 8 80 12 0 0 0]" by blast
  with h1 h2 show ?thesis by (intro conjI)
qed

theorem repeated_draws_merge_witness:
  "\<exists>q'. draw_repeatedly 12 (1::real)
       \<lparr>commands = [DrawImageCommand 7 8 80 12 (0::nat) 0 0], vertices = replicate 80 0,
        indices = quad_indices @ quad_indices, nindices = 12, tmpNumIndices = 12,
        nextIndex = 8\<rparr>
       7 8 [(replicate 40 0, quad_indices), (replicate 40 0, quad_indices)] 0 0 0 = Inr q' \<and>
     commands q' = [DrawImageCommand 7 8 80 12 0 0 0, DrawImageCommand 7 8 80 12 0 0 0]"
proof -
  let ?d = "(replicate 40 (0::real), quad_indices)"
  let ?q = "\<lparr>commands = [DrawImageCommand 7 8 80 12 (0::nat) 0 0],
        vertices = replicate 80 (0::real), indices = quad_indices @ quad_indices, nindices = 12,
        tmpNumIndices = 12, nextIndex = 8\<rparr>"
  have h1: "\<forall>e\<in>set (?d # [?d]). length (fst e) mod VertexSizeInFloats = 0"
    by (simp add: VertexSizeInFloats_def)
  have h2: "\<forall>e\<in>set (?d # [?d]). length (snd e) \<le> 12"
    by (simp add: length_quad_indices)
  from repeated_draws_merge [OF h1 h2, of 1 ?q 7 8 0 0 0]
  obtain q' where r: "draw_repeatedly 12 1 ?q 7 8 [?d, ?d] 0 0 0 = Inr q'"
    and c: "(if 12 < tmpNumIndices ?q + length (snd ?d) then 0 else tmpNumIndices ?q) +
        sum_list (map (\<lambda>e. length (snd e)) (?d # [?d])) \<le> 12 \<longrightarrow>
      commands q' =
        (if tmpNumIndices ?q + length (snd ?d) \<le> 12 \<and> commands ?q \<noteq> [] \<and>
            CanMerge (last (commands ?q)) 7 8 0 0 0
         then butlast (commands ?q) @
              [AddNumIndices
                 (AddNumVertices (last (commands ?q))
                    (sum_list (map (\<lambda>e. length (fst e)) (?d # [?d]))))
                 (sum_list (map (\<lambda>e. length (snd e)) (?d # [?d])))]
         else commands ?q @
              [DrawImageCommand 7 8 (sum_list (map (\<lambda>e. length (fst e)) (?d # [?d])))
                 (sum_list (map (\<lambda>e. length (snd e)) (?d # [?d]))) 0 0 0])"
    by blast
  from c have "commands q' = [DrawImageCommand 7 8 80 12 0 0 0, DrawImageCommand 7 8 80 12 0 0 0]"
    by (simp add: length_quad_indices)
  with r show ?thesis by blast
qed

lemma draw_repeatedly_append:
  "draw_repeatedly indicesNum one q dst src (ds @ es) clr mode flt =
   (case draw_repeatedly indicesNum one q dst src ds clr mode flt of
      Inl err \<Rightarrow> Inl err
    | Inr q' \<Rightarrow> draw_repeatedly indicesNum one q' dst src es clr mode flt)"
  by (induction ds arbitrary: q) (simp_all split: sum.splits)

text \<open>
  Claim C4 fails as stated when the draws cross a buffer boundary: with the limit at
  65536 indices, 10923 draws of one quad each (six indices, four vertices of ten floats)
  with the same target, source, colour transform, blend mode and filter leave two
  commands in the queue: the first 10922 draws are merged into one command of 65532
  indices, and the last draw, which would not fit, starts a new command.
\<close>

theorem repeated_draws_split_counterexample:
  "map_sum id commands
     (draw_repeatedly 65536 1 (theCommandQueue :: (nat, real) commandQueue) 7 8
        (replicate 10923 (replicate 40 0, quad_indices)) 0 0 0) =
   Inr [DrawImageCommand 7 8 436880 65532 0 0 0, DrawImageCommand 7 8 40 6 0 0 0]"
proof -
  let ?d = "(replicate 40 (0::real), quad_indices)"
  let ?q = "theCommandQueue :: (nat, real) commandQueue"
  have "replicate (Suc 10922) ?d = replicate 10922 ?d @ [?d]"
    by (simp only: replicate_Suc replicate_append_same)
  moreover have "(10923::nat) = Suc 10922" by simp
  ultimately have sp: "replicate 10923 ?d = replicate 10922 ?d @ [?d]"
    by (simp only:)
  have si: "sum_list (map (\<lambda>d. length (snd d)) (replicate 10922 ?d)) = 65532"
    and sv: "sum_list (map (\<lambda>d. length (fst d)) (replicate 10922 ?d)) = 436880"
    by (simp_all add: length_quad_indices sum_list_replicate)
  have h1: "replicate 10922 ?d \<noteq> []" by simp
  have h2: "\<forall>d\<in>set (replicate 10922 ?d). length (fst d) mod VertexSizeInFloats = 0"
    by (simp add: VertexSizeInFloats_def)
  have h3: "tmpNumIndices ?q + sum_list (map (\<lambda>d. length (snd d)) (replicate 10922 ?d)) \<le> 65536"
    unfolding si by (simp add: theCommandQueue_def)
  have h4: "commands ?q = [] \<or> \<not> CanMerge (last (commands ?q)) 7 8 (0::nat) 0 0"
    by (simp add: theCommandQueue_def)
  from draw_repeatedly_fresh [OF h1 h2 h3 h4, of 1]
  obtain q1 where d1: "draw_repeatedly 65536 1 ?q 7 8 (replicate 10922 ?d) 0 0 0 = Inr q1"
    and c1: "commands q1 = [DrawImageCommand 7 8 436880 65532 0 0 0]"
    and t1: "tmpNumIndices q1 = 65532"
    unfolding si sv by (auto simp: theCommandQueue_def)
  have l: "length quad_indices \<le> 65536" by (simp add: length_quad_indices)
  have "length (replicate 40 (0::real)) mod VertexSizeInFloats = 0"
    by (simp add: VertexSizeInFloats_def)
  from populate_color_result [of 0 "replicate 40 (0::real)" 1] this
  obtain vs' where p: "populate_color 1 0 (replicate 40 (0::real)) = Inr vs'" by auto
  from Enqueue_Inr [OF l p, of q1 7 8 0 0 0]
  obtain q2 where e2: "EnqueueDrawImageCommand 65536 1 q1 7 8 (replicate 40 0) quad_indices 0 0 0 =
      Inr q2" by blast
  from Enqueue_commands(1) [OF e2]
  have c2: "commands q2 = [DrawImageCommand 7 8 436880 65532 0 0 0, DrawImageCommand 7 8 40 6 0 0 0]"
    by (simp add: length_quad_indices c1 t1)
  show ?thesis
    unfolding sp draw_repeatedly_append by (simp add: d1 e2 c2)
qed

subsection \<open>The queues that the package builds\<close>

lemma total_butlast_last:
  "cs \<noteq> [] \<Longrightarrow> total_indices (butlast cs) + NumIndices (last cs) = total_indices cs"
  "cs \<noteq> [] \<Longrightarrow> total_vertices (butlast cs) + NumVertices (last cs) = total_vertices cs"
  using total_indices_simps(3) [of "butlast cs" "[last cs]"]
    total_vertices_simps(3) [of "butlast cs" "[last cs]"]
  by simp_all

lemma Enqueue_fields:
  assumes "EnqueueDrawImageCommand indicesNum one q dst src vs idx clr mode flt = Inr q'"
  shows "length idx \<le> indicesNum"
    and "length (vertices q') = length (vertices q) + length vs"
    and "nindices q' = nindices q + length idx"
    and "length (indices q') = max (length (indices q)) (nindices q + length idx)"
proof -
  from Enqueue_InrD [OF assms] obtain vs' where l: "length idx \<le> indicesNum"
    and p: "populate_color one 0 vs = Inr vs'" and lv: "length vs' = length vs" by blast
  from Enqueue_Inr [OF l p, of q dst src clr mode flt] assms lv l
  show "length idx \<le> indicesNum"
    and "length (vertices q') = length (vertices q) + length vs"
    and "nindices q' = nindices q + length idx"
    and "length (indices q') = max (length (indices q)) (nindices q + length idx)"
    by auto
qed

lemma queue_invariant_draw:
  assumes inv: "queue_invariant n q"
    and e: "EnqueueDrawImageCommand n one q dst src vs idx clr mode flt = Inr q'"
  shows "queue_invariant n q'"
proof -
  note f = Enqueue_fields [OF e]
  note c = Enqueue_commands [OF e]
  show ?thesis
  proof (cases "tmpNumIndices q + length idx \<le> n \<and> commands q \<noteq> [] \<and>
               CanMerge (last (commands q)) dst src clr mode flt")
    case True
    then obtain nv ni where lst: "last (commands q) = DrawImageCommand dst src nv ni clr mode flt"
      by (auto simp: CanMerge_iff)
    from True c(1) have "commands q' = butlast (commands q) @
        [AddNumIndices (AddNumVertices (last (commands q)) (length vs)) (length idx)]"
      by simp
    then have cq: "commands q' = butlast (commands q) @
        [DrawImageCommand dst src (nv + length vs) (ni + length idx) clr mode flt]"
      by (simp add: lst)
    from True c(2) have t: "tmpNumIndices q' = tmpNumIndices q + length idx" by simp
    from True have ne: "commands q \<noteq> []" by simp
    have ti: "total_indices (commands q') = total_indices (commands q) + length idx"
      using total_butlast_last(1) [OF ne] by (simp add: cq lst)
    have tv: "total_vertices (commands q') = total_vertices (commands q) + length vs"
      using total_butlast_last(2) [OF ne] by (simp add: cq lst)
    have b: "\<forall>c\<in>set (commands q'). NumIndices c \<le> n"
    proof
      fix c assume "c \<in> set (commands q')"
      then have "c \<in> set (butlast (commands q)) \<or>
          c = DrawImageCommand dst src (nv + length vs) (ni + length idx) clr mode flt"
        by (auto simp: cq)
      then show "NumIndices c \<le> n"
      proof
        assume "c \<in> set (butlast (commands q))"
        then have "c \<in> set (commands q)" by (rule in_set_butlastD)
        with inv show ?thesis by (simp add: queue_invariant_def)
      next
        assume "c = DrawImageCommand dst src (nv + length vs) (ni + length idx) clr mode flt"
        moreover have "ni \<le> tmpNumIndices q" using inv ne lst by (simp add: queue_invariant_def)
        ultimately show ?thesis using True by simp
      qed
    qed
    have "NumIndices (last (commands q')) \<le> tmpNumIndices q'"
      using inv ne lst by (simp add: cq t queue_invariant_def)
    with b ti tv t f True inv show ?thesis
      by (simp add: queue_invariant_def)
  next
    case False
    with c(1) have cq: "commands q' = commands q @
        [DrawImageCommand dst src (length vs) (length idx) clr mode flt]"
      by auto
    have t: "tmpNumIndices q' \<le> n" "length idx \<le> tmpNumIndices q'"
      using c(2) f(1) by (auto split: if_splits)
    from cq f t inv show ?thesis
      by (auto simp: queue_invariant_def)
  qed
qed

lemma queue_built_invariant:
  "queue_built n one q \<Longrightarrow> queue_invariant n q"
proof (induction rule: queue_built.induct)
  case empty
  show ?case by (simp add: queue_invariant_def theCommandQueue_def)
next
  case (draw q dst src vs idx clr mode flt q')
  then show ?case by (auto intro: queue_invariant_draw)
next
  case (other q c)
  then show ?case by (simp add: queue_invariant_def Enqueue_def)
next
  case (flush q fails chunks q')
  then show ?case
    by (auto simp: queue_invariant_def Flush_def split: sum.splits)
qed

lemma queue_built_covers:
  "queue_built n one q \<Longrightarrow> arrays_cover q \<and> (\<forall>c\<in>set (commands q). NumIndices c \<le> n)"
  by (drule queue_built_invariant) (simp add: queue_invariant_def arrays_cover_def)

lemma populate_color_error: "populate_color one i vs = Inl e \<Longrightarrow> e = PanicSliceBounds"
proof (induction one i vs rule: populate_color.induct)
  case (1 one i vs)
  from "1.prems" have lt: "i < length vs"
    by (subst (asm) populate_color.simps) (simp split: if_splits)
  show ?case
  proof (cases "length vs < i + VertexSizeInFloats")
    case True
    with "1.prems" lt show ?thesis by (subst (asm) populate_color.simps) simp
  next
    case False
    with "1.prems" lt
    have "populate_color one (i + VertexSizeInFloats) (set_tint one i vs) = Inl e"
      by (subst (asm) populate_color.simps) simp
    from "1.IH" [OF lt False this] show ?thesis .
  qed
qed

lemma Enqueue_never_too_many:
  "EnqueueDrawImageCommand indicesNum one q dst src vs idx clr mode flt \<noteq> Inl PanicTooManyIndices"
proof (cases "populate_color one 0 vs")
  case (Inl e)
  with populate_color_error [OF Inl] show ?thesis
    by (simp add: EnqueueDrawImageCommand_def)
next
  case (Inr vs')
  then show ?thesis
    by (simp add: EnqueueDrawImageCommand_def doEnqueueDrawImageCommand_def Let_def)
qed

text \<open>
  Claim C10. \<open>doEnqueueDrawImageCommand\<close> panics exactly when the command's index count
  exceeds \<open>indicesNum\<close>, and returns a queue otherwise. \<open>Flush\<close> panics with "not
  reached" when a queued command exceeds \<open>indicesNum\<close> (the arrays covering the commands
  and no \<open>Exec\<close> failing before the command is reached), and whatever the GL context
  does it never does so when every queued command has at most \<open>indicesNum\<close> indices.
  On a queue that the package has built neither panic can happen: no queued command
  exceeds the limit, and \<open>EnqueueDrawImageCommand\<close> checks the number of indices itself
  before it calls \<open>doEnqueueDrawImageCommand\<close>.
\<close>

theorem index_limit_panics:
  "(doEnqueueDrawImageCommand indicesNum q dst src nv ni clr mode flt force =
      Inl PanicTooManyIndices \<longleftrightarrow> indicesNum < ni) \<and>
   ((\<exists>q'. doEnqueueDrawImageCommand indicesNum q dst src nv ni clr mode flt force = Inr q')
      \<longleftrightarrow> ni \<le> indicesNum) \<and>
   ((\<exists>c\<in>set (commands q). indicesNum < NumIndices c) \<and>
    (\<forall>c\<in>set (commands q). \<forall>k. \<not> fails c k) \<and> arrays_cover q \<longrightarrow>
      Flush indicesNum fails q = Inl PanicNotReachedFlush) \<and>
   ((\<forall>c\<in>set (commands q). NumIndices c \<le> indicesNum) \<longrightarrow>
      Flush indicesNum fails q \<noteq> Inl PanicNotReachedFlush) \<and>
   (queue_built indicesNum one q \<longrightarrow>
      Flush indicesNum fails q \<noteq> Inl PanicNotReachedFlush \<and>
      EnqueueDrawImageCommand indicesNum one q dst src vs idx clr mode flt \<noteq>
        Inl PanicTooManyIndices)"
proof -
  have bounded: "Flush indicesNum fails q \<noteq> Inl PanicNotReachedFlush"
    if b: "\<forall>c\<in>set (commands q). NumIndices c \<le> indicesNum"
  proof
    assume "Flush indicesNum fails q = Inl PanicNotReachedFlush"
    then have "flush_loop indicesNum fails (commands q) (indices q) (vertices q) =
      Inl PanicNotReachedFlush"
      by (simp add: Flush_def split: sum.splits)
    from flush_loop_not_reached [OF this] b show False by (auto simp: not_less)
  qed
  show ?thesis
  proof (intro conjI impI)
    show "doEnqueueDrawImageCommand indicesNum q dst src nv ni clr mode flt force =
        Inl PanicTooManyIndices \<longleftrightarrow> indicesNum < ni"
      by (simp add: doEnqueueDrawImageCommand_def)
    show "(\<exists>q'. doEnqueueDrawImageCommand indicesNum q dst src nv ni clr mode flt force = Inr q')
        \<longleftrightarrow> ni \<le> indicesNum"
      by (auto simp: doEnqueueDrawImageCommand_def)
    show "EnqueueDrawImageCommand indicesNum one q dst src vs idx clr mode flt \<noteq>
        Inl PanicTooManyIndices"
      by (rule Enqueue_never_too_many)
  next
    assume a: "(\<exists>c\<in>set (commands q). indicesNum < NumIndices c) \<and>
      (\<forall>c\<in>set (commands q). \<forall>k. \<not> fails c k) \<and> arrays_cover q"
    then have "flush_loop indicesNum fails (commands q) (indices q) (vertices q) =
        Inl PanicNotReachedFlush"
      by (intro flush_loop_panics) (simp_all add: arrays_cover_def)
    then show "Flush indicesNum fails q = Inl PanicNotReachedFlush"
      by (simp add: Flush_def)
  next
    assume "\<forall>c\<in>set (commands q). NumIndices c \<le> indicesNum"
    then show "Flush indicesNum fails q \<noteq> Inl PanicNotReachedFlush" by (rule bounded)
  next
    assume qb: "queue_built indicesNum one q"
    from queue_built_covers [OF qb]
    have "\<forall>c\<in>set (commands q). NumIndices c \<le> indicesNum" by simp
    then show "Flush indicesNum fails q \<noteq> Inl PanicNotReachedFlush" by (rule bounded)
  qed
qed

theorem index_limit_panics_witness:
  "doEnqueueDrawImageCommand 12 (theCommandQueue :: (nat, real) commandQueue) 1 2 120 18 0 0 0 False =
     Inl PanicTooManyIndices \<and>
   (\<exists>q'. doEnqueueDrawImageCommand 12 (theCommandQueue :: (nat, real) commandQueue) 1 2 40 6 0 0 0 False =
     Inr q') \<and>
   Flush 12 (\<lambda>c k. False)
     \<lparr>commands = [DrawImageCommand 1 2 40 6 (0::nat) 0 0, DrawImageCommand 1 3 120 18 0 0 0],
      vertices = replicate 160 (0::real), indices = replicate 24 0, nindices = 24,
      tmpNumIndices = 24, nextIndex = 16\<rparr> = Inl PanicNotReachedFlush \<and>
   Flush 12 (\<lambda>c k. False)
     \<lparr>commands = [DrawImageCommand 1 2 40 6 (0::nat) 0 0, DrawImageCommand 1 3 80 12 0 0 0],
      vertices = replicate 120 (0::real), indices = replicate 18 0, nindices = 18,
      tmpNumIndices = 12, nextIndex = 8\<rparr> \<noteq> Inl PanicNotReachedFlush \<and>
   queue_built 12 (1::real) (theCommandQueue :: (nat, real) commandQueue) \<and>
   Flush 12 (\<lambda>c k. True) (theCommandQueue :: (nat, real) commandQueue) \<noteq>
     Inl PanicNotReachedFlush"
  using
    index_limit_panics [of 12 "theCommandQueue :: (nat, real) commandQueue" 1 2 120 18 0 0 0 False
      "\<lambda>c k. False" 1 "[]" "[]"]
    index_limit_panics [of 12 "theCommandQueue :: (nat, real) commandQueue" 1 2 40 6 0 0 0 False
      "\<lambda>c k. True" 1 "[]" "[]"]
    index_limit_panics [of 12
      "\<lparr>commands = [DrawImageCommand 1 2 40 6 (0::nat) 0 0, DrawImageCommand 1 3 120 18 0 0 0],
        vertices = replicate 160 (0::real), indices = replicate 24 0, nindices = 24,
        tmpNumIndices = 24, nextIndex = 16\<rparr>" 1 2 0 0 0 0 0 False "\<lambda>c k. False" 1 "[]" "[]"]
    index_limit_panics [of 12
      "\<lparr>commands = [DrawImageCommand 1 2 40 6 (0::nat) 0 0, DrawImageCommand 1 3 80 12 0 0 0],
        vertices = replicate 120 (0::real), indices = replicate 18 0, nindices = 18,
        tmpNumIndices = 12, nextIndex = 8\<rparr>" 1 2 0 0 0 0 0 False "\<lambda>c k. False" 1 "[]" "[]"]
    queue_built.empty [of 12 "1::real", where ?'c = nat]
  by (simp add: arrays_cover_def)

section \<open>Properties of the vertex builder\<close>

lemma go_int_id: "- (2 ^ 63) \<le> x \<Longrightarrow> x < 2 ^ 63 \<Longrightarrow> go_int x = x"
  by (simp add: go_int_def)

lemma go_int_double_power:
  assumes "k < 62"
  shows "go_int (2 ^ k * 2) = 2 ^ Suc k"
proof -
  from assms have "Suc k \<le> 62" by simp
  then have "(2::int) ^ Suc k \<le> 2 ^ 62" by (rule power_increasing) simp
  then have "(2::int) ^ Suc k < 2 ^ 63" by simp
  moreover have "- (2 ^ 63) \<le> (2::int) ^ Suc k"
    by (rule order_trans [of _ 0]) simp_all
  ultimately have "go_int (2 ^ Suc k) = 2 ^ Suc k" by (rule go_int_id [rotated])
  then show ?thesis by (simp add: mult.commute)
qed

lemma next_pow2_loop_power:
  assumes "n \<le> 2 ^ 62" and "k = 0 \<or> 2 ^ (k - 1) < n"
  shows "\<exists>k'. next_pow2_loop (2 ^ k) n = Some (2 ^ k') \<and> n \<le> 2 ^ k' \<and>
            (k' = 0 \<or> 2 ^ (k' - 1) < n)"
  using assms(2)
proof (induction "nat (n - 2 ^ k)" arbitrary: k rule: less_induct)
  case less
  show ?case
  proof (cases "(2::int) ^ k < n")
    case False
    then have "next_pow2_loop (2 ^ k) n = Some (2 ^ k)"
      by (subst next_pow2_loop.simps) simp
    with False less.prems show ?thesis by (intro exI [of _ k]) auto
  next
    case True
    with assms(1) have "(2::int) ^ k < 2 ^ 62" by simp
    have "k < 62"
    proof (rule ccontr)
      assume "\<not> k < 62"
      then have "62 \<le> k" by simp
      then have "(2::int) ^ 62 \<le> 2 ^ k" by (rule power_increasing) simp
      with \<open>(2::int) ^ k < 2 ^ 62\<close> show False by simp
    qed
    then have d: "go_int (2 ^ k * 2) = 2 ^ Suc k" by (rule go_int_double_power)
    have step: "next_pow2_loop (2 ^ k) n = next_pow2_loop (2 ^ Suc k) n"
      using True by (subst next_pow2_loop.simps) (simp only: d if_True)
    have "nat (n - 2 ^ Suc k) < nat (n - 2 ^ k)" using True by simp
    from less.hyps [OF this] True
    obtain k' where "next_pow2_loop (2 ^ Suc k) n = Some (2 ^ k')" "n \<le> 2 ^ k'"
      "k' = 0 \<or> 2 ^ (k' - 1) < n"
      by auto
    with step show ?thesis by auto
  qed
qed

lemma next_pow2_least:
  assumes "k = 0 \<or> (2::int) ^ (k - 1) < n" and "n \<le> 2 ^ j"
  shows "(2::int) ^ k \<le> 2 ^ j"
proof (cases "k = 0")
  case True
  then show ?thesis by simp
next
  case False
  with assms(1) have "(2::int) ^ (k - 1) < n" by simp
  from this assms(2) have "(2::int) ^ (k - 1) < 2 ^ j" by (rule less_le_trans)
  then have "k - 1 < j" by simp
  with False have "k \<le> j" by simp
  then show ?thesis by simp
qed

text \<open>
  For a size of at most \<open>2 ^ 62\<close> the loop ends, and its result is the least power of
  two that is at least the size.
\<close>

lemma next_pow2_loop_1:
  assumes "n \<le> 2 ^ 62"
  shows "\<exists>k. next_pow2_loop 1 n = Some (2 ^ k) \<and> n \<le> 2 ^ k \<and>
            (\<forall>j. n \<le> 2 ^ j \<longrightarrow> (2::int) ^ k \<le> 2 ^ j)"
proof -
  from next_pow2_loop_power [OF assms, of 0]
  obtain k where k: "next_pow2_loop 1 n = Some (2 ^ k)" "n \<le> 2 ^ k" "k = 0 \<or> 2 ^ (k - 1) < n"
    by auto
  then have "\<forall>j. n \<le> 2 ^ j \<longrightarrow> (2::int) ^ k \<le> 2 ^ j"
    using next_pow2_least by blast
  with k show ?thesis by blast
qed

text \<open>For a larger size the loop never ends.\<close>

lemma go_int_examples:
  "go_int (0 * 2) = 0" "go_int (- (2 ^ 63) * 2) = 0" "go_int (2 ^ 62 * 2) = - (2 ^ 63)"
  by (simp_all add: go_int_def)

lemma on_the_way_intros:
  "on_the_way 0" "on_the_way (- (2 ^ 63))" "k \<le> 62 \<Longrightarrow> on_the_way (2 ^ k)"
  unfolding on_the_way_def by blast+

lemma on_the_way_step:
  assumes "on_the_way w"
  shows "on_the_way (go_int (w * 2))"
proof -
  from assms consider "w = 0" | "w = - (2 ^ 63)" | k where "k \<le> 62" "w = 2 ^ k"
    unfolding on_the_way_def by blast
  then show ?thesis
  proof cases
    case 1
    then show ?thesis by (simp only: go_int_examples on_the_way_intros)
  next
    case 2
    then show ?thesis by (simp only: go_int_examples on_the_way_intros)
  next
    case 3
    show ?thesis
    proof (cases "k = 62")
      case True
      with 3 show ?thesis by (simp only: go_int_examples on_the_way_intros)
    next
      case False
      with 3 have "k < 62" by simp
      from go_int_double_power [OF this] 3 have "go_int (w * 2) = 2 ^ Suc k" by simp
      moreover from \<open>k < 62\<close> have "Suc k \<le> 62" by simp
      ultimately show ?thesis by (simp only: on_the_way_intros)
    qed
  qed
qed

lemma on_the_way_less:
  assumes "on_the_way w" and "2 ^ 62 < n"
  shows "w < n"
proof -
  from assms(1) consider "w = 0" | "w = - (2 ^ 63)" | k where "k \<le> 62" "w = 2 ^ k"
    unfolding on_the_way_def by blast
  then show ?thesis
  proof cases
    case 1
    have "(0::int) < 2 ^ 62" by simp
    from this assms(2) have "0 < n" by (rule less_trans)
    with 1 show ?thesis by simp
  next
    case 2
    have "- (2 ^ 63) < (2::int) ^ 62" by simp
    from this assms(2) have "- (2 ^ 63) < n" by (rule less_trans)
    with 2 show ?thesis by simp
  next
    case 3
    from 3(1) have "(2::int) ^ k \<le> 2 ^ 62" by (rule power_increasing) simp
    from this assms(2) have "2 ^ k < n" by (rule le_less_trans)
    with 3 show ?thesis by simp
  qed
qed

lemma next_pow2_loop_never_returns_aux:
  assumes "next_pow2_loop w n = Some y"
  shows "\<not> (on_the_way w \<and> 2 ^ 62 < n)"
proof (rule next_pow2_loop.raw_induct
    [where P = "\<lambda>w n y. \<not> (on_the_way w \<and> 2 ^ 62 < n)", OF _ assms])
  fix f :: "int \<Rightarrow> int \<Rightarrow> int option" and w n y :: int
  assume IH: "\<And>w n y. f w n = Some y \<Longrightarrow> \<not> (on_the_way w \<and> 2 ^ 62 < n)"
    and h: "(if w < n then f (go_int (w * 2)) n else Some w) = Some y"
  show "\<not> (on_the_way w \<and> 2 ^ 62 < n)"
  proof
    assume a: "on_the_way w \<and> 2 ^ 62 < n"
    from a have o: "on_the_way w" by (rule conjunct1)
    from a have l: "2 ^ 62 < n" by (rule conjunct2)
    from o l have "w < n" by (rule on_the_way_less)
    with h have "f (go_int (w * 2)) n = Some y" by simp
    then have neg: "\<not> (on_the_way (go_int (w * 2)) \<and> 2 ^ 62 < n)" by (rule IH)
    from o have "on_the_way (go_int (w * 2))" by (rule on_the_way_step)
    from this l have "on_the_way (go_int (w * 2)) \<and> 2 ^ 62 < n" by (rule conjI)
    with neg show False by (rule notE)
  qed
qed

lemma next_pow2_loop_never_returns:
  assumes "2 ^ 62 < n"
  shows "next_pow2_loop 1 n = None"
proof (cases "next_pow2_loop 1 n")
  case None
  then show ?thesis .
next
  case (Some y)
  have "on_the_way (2 ^ 0)" by (rule on_the_way_intros) simp
  then have "on_the_way 1" by simp
  from this assms have "on_the_way 1 \<and> 2 ^ 62 < n" by (rule conjI)
  with next_pow2_loop_never_returns_aux [OF Some] have False by (rule notE)
  then show ?thesis ..
qed

text \<open>
  Within the bound: for a source rectangle that is not degenerate, on an image that has
  not been disposed and whose width and height are at most \<open>2 ^ 62\<close>, the call returns
  four vertices with the texture coordinates of claim C9.
\<close>

lemma vertices_within_bound:
  assumes "sx0 < sx1" and "sy0 < sy1" and "0 < sx1" and "0 < sy1"
    and "image_r i = Some g"
    and "gwidth g \<le> 2 ^ 62" and "gheight g \<le> 2 ^ 62"
  shows "\<exists>vs kw kh.
     Image_vertices ops i sx0 sy0 sx1 sy1 tint geo = Inr (Some vs) \<and>
     length vs = 4 * VertexSizeInFloats \<and>
     gwidth g \<le> 2 ^ kw \<and> (\<forall>j. gwidth g \<le> 2 ^ j \<longrightarrow> (2::int) ^ kw \<le> 2 ^ j) \<and>
     gheight g \<le> 2 ^ kh \<and> (\<forall>j. gheight g \<le> 2 ^ j \<longrightarrow> (2::int) ^ kh \<le> 2 ^ j) \<and>
     (\<forall>k < 4.
        vertex_uv vs k =
          (f32_div ops (f32_of_int ops (fst (corner sx0 sy0 sx1 sy1 k))) (f32_of_int ops (2 ^ kw)),
           f32_div ops (f32_of_int ops (snd (corner sx0 sy0 sx1 sy1 k))) (f32_of_int ops (2 ^ kh))) \<and>
        vertex_uv2 vs k =
          (f32_div ops (f32_of_int ops (fst (corner sx0 sy0 sx1 sy1 (3 - k)))) (f32_of_int ops (2 ^ kw)),
           f32_div ops (f32_of_int ops (snd (corner sx0 sy0 sx1 sy1 (3 - k)))) (f32_of_int ops (2 ^ kh))))"
proof -
  from next_pow2_loop_1 [OF assms(6)] obtain kw where
    kw: "next_pow2_loop 1 (gwidth g) = Some (2 ^ kw)" "gwidth g \<le> 2 ^ kw"
      "\<forall>j. gwidth g \<le> 2 ^ j \<longrightarrow> (2::int) ^ kw \<le> 2 ^ j" by blast
  from next_pow2_loop_1 [OF assms(7)] obtain kh where
    kh: "next_pow2_loop 1 (gheight g) = Some (2 ^ kh)" "gheight g \<le> 2 ^ kh"
      "\<forall>j. gheight g \<le> 2 ^ j \<longrightarrow> (2::int) ^ kh \<le> 2 ^ j" by blast
  note a = assms(1-5)
  obtain vs where some: "Image_vertices ops i sx0 sy0 sx1 sy1 tint geo = Inr (Some vs)"
    using a by (simp add: Image_vertices_def Let_def Size_def kw(1) kh(1))
  have len: "length vs = 4 * VertexSizeInFloats"
    using a some
    by (auto simp: Image_vertices_def Let_def Size_def VertexSizeInFloats_def kw(1) kh(1))
  have four: "\<And>k::nat. k < 4 \<longleftrightarrow> k = 0 \<or> k = 1 \<or> k = 2 \<or> k = 3" by auto
  have uv: "\<forall>k < 4.
        vertex_uv vs k =
          (f32_div ops (f32_of_int ops (fst (corner sx0 sy0 sx1 sy1 k))) (f32_of_int ops (2 ^ kw)),
           f32_div ops (f32_of_int ops (snd (corner sx0 sy0 sx1 sy1 k))) (f32_of_int ops (2 ^ kh))) \<and>
        vertex_uv2 vs k =
          (f32_div ops (f32_of_int ops (fst (corner sx0 sy0 sx1 sy1 (3 - k)))) (f32_of_int ops (2 ^ kw)),
           f32_div ops (f32_of_int ops (snd (corner sx0 sy0 sx1 sy1 (3 - k)))) (f32_of_int ops (2 ^ kh)))"
    using a some unfolding four
    by (auto simp: Image_vertices_def Let_def Size_def kw(1) kh(1) vertex_uv_def vertex_uv2_def
        corner_def VertexSizeInFloats_def)
  from some len kw(2,3) kh(2,3) uv show ?thesis by blast
qed

text \<open>
  Beyond the bound the call does not return: for a source rectangle that is not
  degenerate, on an image that has not been disposed and whose width or height is above
  \<open>2 ^ 62\<close>.
\<close>

lemma vertices_never_returns:
  assumes "sx0 < sx1" and "sy0 < sy1" and "0 < sx1" and "0 < sy1"
    and "image_r i = Some g"
    and "2 ^ 62 < gwidth g \<or> 2 ^ 62 < gheight g"
  shows "Image_vertices ops i sx0 sy0 sx1 sy1 tint geo = Inl NeverReturns"
proof (cases "2 ^ 62 < gwidth g")
  case True
  then have "next_pow2_loop 1 (gwidth g) = None" by (rule next_pow2_loop_never_returns)
  with assms(1-5) show ?thesis by (simp add: Image_vertices_def Let_def Size_def)
next
  case False
  with assms(6) have "2 ^ 62 < gheight g" by simp
  then have "next_pow2_loop 1 (gheight g) = None" by (rule next_pow2_loop_never_returns)
  with assms(1-5) show ?thesis
    by (simp add: Image_vertices_def Let_def Size_def split: option.splits)
qed

text \<open>
  Claim C9. Take a source rectangle that is not degenerate and an image that has not
  been disposed. \<open>Image.vertices\<close> returns vertices exactly when the width and the
  height of the image are at most \<open>2 ^ 62\<close> (beyond that a loop over the size does not
  end). Whenever it returns vertices, they are four vertices of ten floats, and with
  \<open>2 ^ kw\<close> and \<open>2 ^ kh\<close> the least powers of two that are at least the width and the
  height of the image, vertex \<open>k\<close> carries as its first pair of texture coordinates the
  coordinates of corner \<open>k\<close> of the rectangle, converted to \<open>float32\<close> and divided by
  \<open>float32(2 ^ kw)\<close> and \<open>float32(2 ^ kh)\<close>, and as its second pair those of the
  diagonally opposite corner \<open>3 - k\<close>, converted and divided in the same way.
\<close>

theorem vertices_texture_coordinates:
  assumes "sx0 < sx1" and "sy0 < sy1" and "0 < sx1" and "0 < sy1"
    and "image_r i = Some g"
  shows "((\<exists>vs. Image_vertices ops i sx0 sy0 sx1 sy1 tint geo = Inr (Some vs)) \<longleftrightarrow>
            gwidth g \<le> 2 ^ 62 \<and> gheight g \<le> 2 ^ 62) \<and>
     (\<forall>vs. Image_vertices ops i sx0 sy0 sx1 sy1 tint geo = Inr (Some vs) \<longrightarrow>
        (\<exists>kw kh.
           length vs = 4 * VertexSizeInFloats \<and>
           gwidth g \<le> 2 ^ kw \<and> (\<forall>j. gwidth g \<le> 2 ^ j \<longrightarrow> (2::int) ^ kw \<le> 2 ^ j) \<and>
           gheight g \<le> 2 ^ kh \<and> (\<forall>j. gheight g \<le> 2 ^ j \<longrightarrow> (2::int) ^ kh \<le> 2 ^ j) \<and>
           (\<forall>k < 4.
              vertex_uv vs k =
                (f32_div ops (f32_of_int ops (fst (corner sx0 sy0 sx1 sy1 k)))
                   (f32_of_int ops (2 ^ kw)),
                 f32_div ops (f32_of_int ops (snd (corner sx0 sy0 sx1 sy1 k)))
                   (f32_of_int ops (2 ^ kh))) \<and>
              vertex_uv2 vs k =
                (f32_div ops (f32_of_int ops (fst (corner sx0 sy0 sx1 sy1 (3 - k))))
                   (f32_of_int ops (2 ^ kw)),
                 f32_div ops (f32_of_int ops (snd (corner sx0 sy0 sx1 sy1 (3 - k))))
                   (f32_of_int ops (2 ^ kh))))))"
proof (cases "gwidth g \<le> 2 ^ 62 \<and> gheight g \<le> 2 ^ 62")
  case True
  then have bw: "gwidth g \<le> 2 ^ 62" and bh: "gheight g \<le> 2 ^ 62" by simp_all
  from vertices_within_bound [OF assms bw bh, of ops tint geo]
  obtain vs0 kw kh where r: "Image_vertices ops i sx0 sy0 sx1 sy1 tint geo = Inr (Some vs0)"
    and p: "length vs0 = 4 * VertexSizeInFloats"
      "gwidth g \<le> 2 ^ kw" "\<forall>j. gwidth g \<le> 2 ^ j \<longrightarrow> (2::int) ^ kw \<le> 2 ^ j"
      "gheight g \<le> 2 ^ kh" "\<forall>j. gheight g \<le> 2 ^ j \<longrightarrow> (2::int) ^ kh \<le> 2 ^ j"
      "\<forall>k < 4.
        vertex_uv vs0 k =
          (f32_div ops (f32_of_int ops (fst (corner sx0 sy0 sx1 sy1 k))) (f32_of_int ops (2 ^ kw)),
           f32_div ops (f32_of_int ops (snd (corner sx0 sy0 sx1 sy1 k))) (f32_of_int ops (2 ^ kh))) \<and>
        vertex_uv2 vs0 k =
          (f32_div ops (f32_of_int ops (fst (corner sx0 sy0 sx1 sy1 (3 - k)))) (f32_of_int ops (2 ^ kw)),
           f32_div ops (f32_of_int ops (snd (corner sx0 sy0 sx1 sy1 (3 - k)))) (f32_of_int ops (2 ^ kh)))"
    by blast
  from r True have first: "(\<exists>vs. Image_vertices ops i sx0 sy0 sx1 sy1 tint geo = Inr (Some vs)) \<longleftrightarrow>
            gwidth g \<le> 2 ^ 62 \<and> gheight g \<le> 2 ^ 62"
    by simp
  have "\<exists>kw kh.
           length vs = 4 * VertexSizeInFloats \<and>
           gwidth g \<le> 2 ^ kw \<and> (\<forall>j. gwidth g \<le> 2 ^ j \<longrightarrow> (2::int) ^ kw \<le> 2 ^ j) \<and>
           gheight g \<le> 2 ^ kh \<and> (\<forall>j. gheight g \<le> 2 ^ j \<longrightarrow> (2::int) ^ kh \<le> 2 ^ j) \<and>
           (\<forall>k < 4.
              vertex_uv vs k =
                (f32_div ops (f32_of_int ops (fst (corner sx0 sy0 sx1 sy1 k)))
                   (f32_of_int ops (2 ^ kw)),
                 f32_div ops (f32_of_int ops (snd (corner sx0 sy0 sx1 sy1 k)))
                   (f32_of_int ops (2 ^ kh))) \<and>
              vertex_uv2 vs k =
                (f32_div ops (f32_of_int ops (fst (corner sx0 sy0 sx1 sy1 (3 - k))))
                   (f32_of_int ops (2 ^ kw)),
                 f32_div ops (f32_of_int ops (snd (corner sx0 sy0 sx1 sy1 (3 - k))))
                   (f32_of_int ops (2 ^ kh))))"
    if "Image_vertices ops i sx0 sy0 sx1 sy1 tint geo = Inr (Some vs)" for vs
  proof -
    from that r have "vs = vs0" by simp
    with p show ?thesis by blast
  qed
  with first show ?thesis by blast
next
  case False
  then have "2 ^ 62 < gwidth g \<or> 2 ^ 62 < gheight g" by auto
  from vertices_never_returns [OF assms this, of ops tint geo]
  have n: "Image_vertices ops i sx0 sy0 sx1 sy1 tint geo = Inl NeverReturns" .
  from n False show ?thesis by simp
qed

theorem vertices_texture_coordinates_witness:
  "\<exists>vs kw kh.
     Image_vertices \<lparr>f32_of_int = real_of_int, f32_div = (/)\<rparr>
       \<lparr>image_r = Some \<lparr>gid = 0, gwidth = 26, gheight = 104\<rparr>, basePixels = None,
        drawImageHistory = ([] :: (nat, real) drawImageHistoryItem list), stale = False,
        volatile = False, screen = False\<rparr>
       2 3 20 50 None (\<lambda>x y. (real_of_int x, real_of_int y)) = Inr (Some vs) \<and>
     (26::int) \<le> 2 ^ kw \<and> (104::int) \<le> 2 ^ kh \<and>
     vertex_uv vs 1 = (20 / 2 ^ kw, 3 / 2 ^ kh) \<and>
     vertex_uv2 vs 1 = (2 / 2 ^ kw, 50 / 2 ^ kh)"
proof -
  let ?i = "\<lparr>image_r = Some \<lparr>gid = 0, gwidth = 26, gheight = 104\<rparr>, basePixels = None,
        drawImageHistory = ([] :: (nat, real) drawImageHistoryItem list), stale = False,
        volatile = False, screen = False\<rparr>"
  let ?g = "\<lparr>gid = 0, gwidth = 26, gheight = 104\<rparr>"
  let ?ops = "\<lparr>f32_of_int = real_of_int, f32_div = (/)\<rparr>"
  let ?geo = "\<lambda>x y. (real_of_int x, real_of_int y)"
  have h: "(2::int) < 20" "(3::int) < 50" "(0::int) < 20" "(0::int) < 50" "image_r ?i = Some ?g"
    by simp_all
  note t = vertices_texture_coordinates [OF h, of ?ops None ?geo]
  from t have "\<exists>vs. Image_vertices ?ops ?i 2 3 20 50 None ?geo = Inr (Some vs)" by simp
  then obtain vs where r: "Image_vertices ?ops ?i 2 3 20 50 None ?geo = Inr (Some vs)" ..
  with t obtain kw kh where "gwidth ?g \<le> 2 ^ kw" "gheight ?g \<le> 2 ^ kh"
    and uv: "\<forall>k < 4.
        vertex_uv vs k =
          (f32_div ?ops (f32_of_int ?ops (fst (corner 2 3 20 50 k))) (f32_of_int ?ops (2 ^ kw)),
           f32_div ?ops (f32_of_int ?ops (snd (corner 2 3 20 50 k))) (f32_of_int ?ops (2 ^ kh))) \<and>
        vertex_uv2 vs k =
          (f32_div ?ops (f32_of_int ?ops (fst (corner 2 3 20 50 (3 - k)))) (f32_of_int ?ops (2 ^ kw)),
           f32_div ?ops (f32_of_int ?ops (snd (corner 2 3 20 50 (3 - k)))) (f32_of_int ?ops (2 ^ kh)))"
    by blast
  moreover from uv have "vertex_uv vs 1 = (20 / 2 ^ kw, 3 / 2 ^ kh)"
    "vertex_uv2 vs 1 = (2 / 2 ^ kw, 50 / 2 ^ kh)"
    by (simp_all add: corner_def)
  ultimately show ?thesis using r by auto
qed

lemma next_pow2_loop_examples:
  "next_pow2_loop 1 26 = Some 32" "next_pow2_loop 1 104 = Some 128"
  "next_pow2_loop 1 16 = Some 16" "next_pow2_loop 1 1 = Some 1"
  by (simp_all add: next_pow2_loop.simps go_int_def)
section \<open>The tint and the merge rule\<close>

lemma Image_vertices_example:
  "Image_vertices exact_ops example_image_12 0 0 26 104 (Some (a, \<lparr>R = r, G = g, B = b, A = 255\<rparr>))
     plain_geo =
   Inr (Some [0, 0, 0, 0, 26 / 32, 104 / 128, real_of_int (uint r) / 255, real_of_int (uint g) / 255,
              real_of_int (uint b) / 255, 1,
              26, 0, 26 / 32, 0, 0, 104 / 128, real_of_int (uint r) / 255, real_of_int (uint g) / 255,
              real_of_int (uint b) / 255, 1,
              0, 104, 0, 104 / 128, 26 / 32, 0, real_of_int (uint r) / 255, real_of_int (uint g) / 255,
              real_of_int (uint b) / 255, 1,
              26, 104, 26 / 32, 104 / 128, 0, 0, real_of_int (uint r) / 255, real_of_int (uint g) / 255,
              real_of_int (uint b) / 255, 1])"
  by (simp add: Image_vertices_def Size_def example_image_12_def exact_ops_def plain_geo_def
      Let_def next_pow2_loop_examples go_int_def)

text \<open>
  Claim C2 fails as stated in its "only if": two quads built by \<open>Image.vertices\<close> with
  different tints (different pointers, and different colours: red and blue) and drawn
  with the same target, source, colour transform, blend mode and filter are merged into
  one command.
\<close>

theorem merge_ignores_tint_counterexample:
  "built (Image_vertices exact_ops example_image_12 0 0 26 104
            (Some (21, \<lparr>R = 255, G = 0, B = 0, A = 255\<rparr>)) plain_geo) ! 6 = 1 \<and>
   built (Image_vertices exact_ops example_image_12 0 0 26 104
            (Some (22, \<lparr>R = 0, G = 0, B = 255, A = 255\<rparr>)) plain_geo) ! 6 = 0 \<and>
   map_sum id commands
     (draw_repeatedly 65536 1 (theCommandQueue :: (nat, real) commandQueue) 7 8
        [(built (Image_vertices exact_ops example_image_12 0 0 26 104
                   (Some (21, \<lparr>R = 255, G = 0, B = 0, A = 255\<rparr>)) plain_geo), quad_indices),
         (built (Image_vertices exact_ops example_image_12 0 0 26 104
                   (Some (22, \<lparr>R = 0, G = 0, B = 255, A = 255\<rparr>)) plain_geo), quad_indices)]
        0 0 0) =
   Inr [DrawImageCommand 7 8 80 12 0 0 0]"
proof -
  let ?v1 = "built (Image_vertices exact_ops example_image_12 0 0 26 104
            (Some (21, \<lparr>R = 255, G = 0, B = 0, A = 255\<rparr>)) plain_geo)"
  let ?v2 = "built (Image_vertices exact_ops example_image_12 0 0 26 104
            (Some (22, \<lparr>R = 0, G = 0, B = 255, A = 255\<rparr>)) plain_geo)"
  have l: "length ?v1 = 40" "length ?v2 = 40"
    by (simp_all add: Image_vertices_example built_def)
  have t: "?v1 ! 6 = 1" "?v2 ! 6 = 0"
    by (simp_all add: Image_vertices_example built_def)
  have h1: "[(?v1, quad_indices), (?v2, quad_indices)] \<noteq> []" by simp
  have h2: "\<forall>d\<in>set [(?v1, quad_indices), (?v2, quad_indices)].
      length (fst d) mod VertexSizeInFloats = 0"
    by (simp add: l VertexSizeInFloats_def)
  have h3: "tmpNumIndices (theCommandQueue :: (nat, real) commandQueue) +
      sum_list (map (\<lambda>d. length (snd d)) [(?v1, quad_indices), (?v2, quad_indices)]) \<le> 65536"
    by (simp add: length_quad_indices theCommandQueue_def)
  have h4: "commands (theCommandQueue :: (nat, real) commandQueue) = [] \<or>
      \<not> CanMerge (last (commands (theCommandQueue :: (nat, real) commandQueue))) 7 8 (0::nat) 0 0"
    by (simp add: theCommandQueue_def)
  from draw_repeatedly_fresh [OF h1 h2 h3 h4, of 1]
  obtain q' where "draw_repeatedly 65536 1 (theCommandQueue :: (nat, real) commandQueue) 7 8
       [(?v1, quad_indices), (?v2, quad_indices)] 0 0 0 = Inr q'"
    and "commands q' = [DrawImageCommand 7 8 80 12 0 0 0]"
    by (auto simp: l length_quad_indices theCommandQueue_def)
  with t show ?thesis by simp
qed

section \<open>Properties of restorable images and of the registry\<close>

lemma makeStaleIfDependingOn_idem:
  "makeStaleIfDependingOn (makeStaleIfDependingOn i t) t = makeStaleIfDependingOn i t"
  by (simp add: makeStaleIfDependingOn_def makeStale_def)

lemma image_r_makeStaleIfDependingOn [simp]:
  "image_r (makeStaleIfDependingOn i t) = image_r i"
  by (simp add: makeStaleIfDependingOn_def makeStale_def)

lemma foldl_makeStaleIfDependingOn:
  "foldl (\<lambda>s img. s(img := makeStaleIfDependingOn (s img) t)) st imgs =
   (\<lambda>x. if x \<in> set imgs then makeStaleIfDependingOn (st x) t else st x)"
proof (induction imgs arbitrary: st)
  case Nil
  then show ?case by simp
next
  case (Cons a imgs)
  show ?case
    unfolding foldl_Cons Cons.IH
    by (rule ext) (simp add: makeStaleIfDependingOn_idem)
qed

lemma resetPixelsIfDependingOn_image_r:
  "image_r (snd (resetPixelsIfDependingOn reg st tr) x) = image_r (st x)"
  by (simp add: resetPixelsIfDependingOn_def foldl_makeStaleIfDependingOn Let_def
      split: option.splits)

lemma resetPixelsIfDependingOn_lastChecked:
  "lastChecked (fst (resetPixelsIfDependingOn reg st tr)) = tr"
  by (simp add: resetPixelsIfDependingOn_def Let_def split: option.splits)

lemma images_reset_fields [simp]:
  "eimages (images_resetPixelsIfDependingOn w t) = eimages w"
  "glog (images_resetPixelsIfDependingOn w t) = glog w"
  "gnext (images_resetPixelsIfDependingOn w t) = gnext w"
  "theImages (images_resetPixelsIfDependingOn w t) = theImages w"
  "image_r (rimages (images_resetPixelsIfDependingOn w t) x) = image_r (rimages w x)"
  by (simp_all add: images_resetPixelsIfDependingOn_def Let_def resetPixelsIfDependingOn_image_r)

lemma theImages_makeStale_fields [simp]:
  "eimages (theImages_makeStaleIfDependingOn w t) = eimages w"
  "glog (theImages_makeStaleIfDependingOn w t) = glog w"
  "gnext (theImages_makeStaleIfDependingOn w t) = gnext w"
  "theImagesForRestoring (theImages_makeStaleIfDependingOn w t) = theImagesForRestoring w"
  "image_r (rimages (theImages_makeStaleIfDependingOn w t) x) = image_r (rimages w x)"
  by (simp_all add: theImages_makeStaleIfDependingOn_def Let_def resetPixelsIfDependingOn_image_r)

text \<open>
  Claim C8. A call of \<open>resetPixelsIfDependingOn\<close> whose target is the one remembered in
  \<open>lastChecked\<close> returns at once and changes nothing, whatever the images depend on.
  After any call the memo is the target of that call, so that invalidating the same
  target twice in a row is the same as invalidating it once. A call for a target that is
  not disposed and differs from the memo visits every live image: each one is made stale
  if it depends on the target, and no other image changes.
\<close>

theorem invalidation_memo:
  "(lastChecked (theImagesForRestoring w) = eimages w target \<longrightarrow>
      images_resetPixelsIfDependingOn w target = w) \<and>
   lastChecked (theImagesForRestoring (images_resetPixelsIfDependingOn w target)) =
      eimages w target \<and>
   images_resetPixelsIfDependingOn (images_resetPixelsIfDependingOn w target) target =
      images_resetPixelsIfDependingOn w target \<and>
   (eimages w target = Some t \<and> lastChecked (theImagesForRestoring w) \<noteq> Some t \<longrightarrow>
      rimages (images_resetPixelsIfDependingOn w target) =
        (\<lambda>x. if x \<in> set (images_m (theImagesForRestoring w))
              then makeStaleIfDependingOn (rimages w x) t else rimages w x))"
proof (intro conjI impI)
  show memo: "lastChecked (theImagesForRestoring (images_resetPixelsIfDependingOn w target)) =
      eimages w target"
    by (simp add: images_resetPixelsIfDependingOn_def Let_def resetPixelsIfDependingOn_lastChecked)
  have same: "images_resetPixelsIfDependingOn v target = v"
    if "lastChecked (theImagesForRestoring v) = eimages v target" for v :: "('a, 'b) world"
    using that by (simp add: images_resetPixelsIfDependingOn_def resetPixelsIfDependingOn_def)
  show "images_resetPixelsIfDependingOn w target = w"
    if "lastChecked (theImagesForRestoring w) = eimages w target"
    using that by (rule same)
  show "images_resetPixelsIfDependingOn (images_resetPixelsIfDependingOn w target) target =
      images_resetPixelsIfDependingOn w target"
    by (rule same) (simp add: memo)
  show "rimages (images_resetPixelsIfDependingOn w target) =
        (\<lambda>x. if x \<in> set (images_m (theImagesForRestoring w))
              then makeStaleIfDependingOn (rimages w x) t else rimages w x)"
    if "eimages w target = Some t \<and> lastChecked (theImagesForRestoring w) \<noteq> Some t"
    using that
    by (simp add: images_resetPixelsIfDependingOn_def resetPixelsIfDependingOn_def Let_def
        foldl_makeStaleIfDependingOn)
qed

lemma disposed_noop:
  assumes "eimages w i = None"
  shows "Image_Dispose w i = Inr w"
    and "Image_DrawImage env w i img options = Inr w"
    and "Image_ReplacePixels env w i p = Inr w"
    and "Image_At env w i x y = Inr (Transparent, w)"
  using assms
  by (simp_all add: Image_Dispose_def Image_DrawImage_def Image_ReplacePixels_def Image_At_def)

lemma disposed_apply_operations:
  "eimages w i = None \<Longrightarrow> apply_operations env w i operations = Inr w"
proof (induction operations)
  case Nil
  then show ?case by simp
next
  case (Cons operation operations)
  from Cons.prems have "apply_operation env w i operation = Inr w"
    by (cases operation) (simp_all add: disposed_noop)
  with Cons show ?case by simp
qed

lemma released_append [simp]:
  "released (w\<lparr>glog := glog w @ [GDispose g]\<rparr>) = released w @ [g]"
  by (simp add: released_def)

lemma Image_Dispose_live:
  assumes "eimages w i = Some r" and "image_r (rimages w r) = Some g"
  shows "\<exists>w1. Image_Dispose w i = Inr w1 \<and> eimages w1 i = None \<and> glog w1 = glog w @ [GDispose g]"
  using assms
  by (simp add: Image_Dispose_def Let_def restorable_Dispose_def theImages_remove_def)

text \<open>
  Claim C7. The first \<open>Dispose\<close> of an image that has a GPU image returns \<open>nil\<close>,
  clears the field \<open>restorable\<close> and releases the GPU image (one call of
  \<open>graphics.Image.Dispose\<close> is added to the log). From then on \<open>Dispose\<close>,
  \<open>DrawImage\<close> and \<open>ReplacePixels\<close> return \<open>nil\<close> and leave the whole state as it
  is, and \<open>At\<close> returns \<open>color.Transparent\<close>, whose alpha is 0, and leaves the state as
  it is; so does every sequence of these operations, and the GPU image is not released a
  second time.
\<close>

theorem disposed_image_is_inert:
  assumes "eimages w i = Some r" and "image_r (rimages w r) = Some g"
  shows "\<exists>w1. Image_Dispose w i = Inr w1 \<and> eimages w1 i = None \<and>
           released w1 = released w @ [g] \<and>
           Image_Dispose w1 i = Inr w1 \<and>
           (\<forall>img options. Image_DrawImage env w1 i img options = Inr w1) \<and>
           (\<forall>p. Image_ReplacePixels env w1 i p = Inr w1) \<and>
           (\<forall>x y. Image_At env w1 i x y = Inr (Transparent, w1)) \<and>
           alpha Transparent = 0 \<and>
           (\<forall>operations. apply_operations env w1 i operations = Inr w1)"
proof -
  from Image_Dispose_live [OF assms] obtain w1 where
    d: "Image_Dispose w i = Inr w1" and n: "eimages w1 i = None"
    and l: "glog w1 = glog w @ [GDispose g]" by blast
  from l have "released w1 = released w @ [g]" by (simp add: released_def)
  with d n disposed_noop [OF n] disposed_apply_operations [OF n] show ?thesis
    by (auto simp: Transparent_def)
qed

text \<open>
  Claim C5. For a degenerate source rectangle \<open>Image.vertices\<close> returns \<open>nil\<close>, and
  \<open>DrawImage\<close> of package restorable returns without a panic and leaves the whole
  state as it is: no call to package graphics is made, so no command is enqueued.
  \<open>DrawImage\<close> of package ebiten, when the vertices computed from its options are empty
  and the source has a size, returns \<open>nil\<close> and makes no call to package graphics
  either.
\<close>

theorem degenerate_draw_is_noop:
  assumes "sx0 \<ge> sx1 \<or> sy0 \<ge> sy1 \<or> sx1 \<le> 0 \<or> sy1 \<le> 0"
  shows "Image_vertices ops (rimages w img) sx0 sy0 sx1 sy1 tint geom = Inr None \<and>
         restorable_DrawImage env ops w i img sx0 sy0 sx1 sy1 geom colorm tint mode flt = Inr w \<and>
         (\<forall>target source options wd h.
            Image_Size w source = Inr (wd, h) \<and>
            vertices_of_parts (case options of None \<Rightarrow> zeroDrawImageOptions env | Some opts \<Rightarrow> opts)
              wd h = [] \<longrightarrow>
            (\<exists>w'. Image_DrawImage env w target source options = Inr w' \<and> glog w' = glog w))"
proof (intro conjI allI impI)
  show "Image_vertices ops (rimages w img) sx0 sy0 sx1 sy1 tint geom = Inr None"
    using assms by (auto simp: Image_vertices_def)
  then show "restorable_DrawImage env ops w i img sx0 sy0 sx1 sy1 geom colorm tint mode flt = Inr w"
    by (simp add: restorable_DrawImage_def)
next
  fix target source options wd h
  assume a: "Image_Size w source = Inr (wd, h) \<and>
            vertices_of_parts (case options of None \<Rightarrow> zeroDrawImageOptions env | Some opts \<Rightarrow> opts)
              wd h = []"
  have "Image_Size (images_resetPixelsIfDependingOn w target) source = Image_Size w source"
    by (simp add: Image_Size_def Size_def split: option.splits)
  with a show "\<exists>w'. Image_DrawImage env w target source options = Inr w' \<and> glog w' = glog w"
    by (cases "eimages w target") (simp_all add: Image_DrawImage_def Let_def)
qed












theorem degenerate_draw_is_noop_witness:
  "Image_vertices exact_ops (rimages example_world 12) 5 5 5 9 None plain_geo = Inr None \<and>
   restorable_DrawImage example_outside exact_ops example_world 11 12 5 5 5 9 plain_geo 0 None 0 0 =
     Inr example_world \<and>
   Image_Size example_world 2 = Inr (26, 104) \<and>
   (\<exists>w'. Image_DrawImage example_outside example_world 1 2
            (Some \<lparr>ColorM = 0, CompositeMode = 0, vertices_of_parts = (\<lambda>w h. [])\<rparr>) = Inr w' \<and>
      glog w' = glog example_world)"
proof -
  have s: "Image_Size example_world 2 = Inr (26, 104)"
    by (simp add: Image_Size_def Size_def example_world_def example_image_12_def)
  have "(5::int) \<ge> 5 \<or> (5::int) \<ge> 9 \<or> (5::int) \<le> 0 \<or> (9::int) \<le> 0" by simp
  from degenerate_draw_is_noop [OF this, of exact_ops example_world 12 None plain_geo
      example_outside 11 0 0 0] s
  show ?thesis by auto
qed

theorem disposed_image_is_inert_witness:
  "eimages example_world 1 = Some 11 \<and>
   image_r (rimages example_world 11) = Some \<lparr>gid = 1, gwidth = 16, gheight = 16\<rparr> \<and>
   (\<exists>w1. Image_Dispose example_world 1 = Inr w1 \<and> eimages w1 1 = None \<and>
      released w1 = [\<lparr>gid = 1, gwidth = 16, gheight = 16\<rparr>] \<and>
      Image_Dispose w1 1 = Inr w1 \<and>
      Image_DrawImage example_outside w1 1 2 None = Inr w1 \<and>
      Image_ReplacePixels example_outside w1 1 (replicate 1024 255) = Inr w1 \<and>
      Image_At example_outside w1 1 0 0 = Inr (Transparent, w1) \<and>
      apply_operations example_outside w1 1
        [DrawImage_operation 2 None, Dispose_operation, At_operation 3 4,
         ReplacePixels_operation []] = Inr w1)"
proof -
  have a: "eimages example_world 1 = Some 11"
    and b: "image_r (rimages example_world 11) = Some \<lparr>gid = 1, gwidth = 16, gheight = 16\<rparr>"
    by (simp_all add: example_world_def example_image_11_def)
  have "released example_world = []" by (simp add: released_def example_world_def)
  with disposed_image_is_inert [OF a b, of example_outside] a b show ?thesis
    by auto
qed

theorem invalidation_memo_witness:
  "lastChecked (theImagesForRestoring example_world) = eimages example_world 4 \<and>
   images_resetPixelsIfDependingOn example_world 4 = example_world \<and>
   eimages example_world 2 = Some 12 \<and>
   lastChecked (theImagesForRestoring example_world) \<noteq> Some 12 \<and>
   lastChecked (theImagesForRestoring (images_resetPixelsIfDependingOn example_world 2)) = Some 12 \<and>
   stale (rimages (images_resetPixelsIfDependingOn example_world 2) 11) \<and>
   rimages (images_resetPixelsIfDependingOn example_world 2) 13 = rimages example_world 13 \<and>
   images_resetPixelsIfDependingOn (images_resetPixelsIfDependingOn example_world 2) 2 =
     images_resetPixelsIfDependingOn example_world 2"
proof -
  have a: "lastChecked (theImagesForRestoring example_world) = eimages example_world 4"
    and b: "eimages example_world 2 = Some 12"
    and c: "lastChecked (theImagesForRestoring example_world) \<noteq> Some 12"
    by (simp_all add: example_world_def)
  from invalidation_memo [of example_world 2 12] b c
  have r: "rimages (images_resetPixelsIfDependingOn example_world 2) =
        (\<lambda>x. if x \<in> set (images_m (theImagesForRestoring example_world))
              then makeStaleIfDependingOn (rimages example_world x) 12 else rimages example_world x)"
    and m: "lastChecked (theImagesForRestoring (images_resetPixelsIfDependingOn example_world 2)) =
      Some 12"
    and t: "images_resetPixelsIfDependingOn (images_resetPixelsIfDependingOn example_world 2) 2 =
     images_resetPixelsIfDependingOn example_world 2"
    by simp_all
  have s: "stale (rimages (images_resetPixelsIfDependingOn example_world 2) 11)"
    unfolding r
    by (simp add: example_world_def example_image_11_def makeStaleIfDependingOn_def
        dependsOn_def makeStale_def)
  have u: "rimages (images_resetPixelsIfDependingOn example_world 2) 13 = rimages example_world 13"
    unfolding r
    by (simp add: example_world_def example_image_13_def makeStaleIfDependingOn_def
        dependsOn_def makeStale_def)
  from invalidation_memo [of example_world 4] a
  have "images_resetPixelsIfDependingOn example_world 4 = example_world" by blast
  with a b c m s u t show ?thesis by simp
qed

end
